theory Spec2Isabelle
  imports Complex_Main "HOL-Library.AList" "HOL-Library.Multiset" "HOL-Library.Log_Nat"
begin

section \<open>JavaScript numbers\<close>

text \<open>
  A JavaScript number is an IEEE 754 binary64 value: a finite double, given here by its
  exact rational value, one of the two infinities, or NaN. The sign of zero is not
  modelled.
\<close>

datatype jsnum = Num rat | PInf | NInf | NaN

text \<open>The integer nearest to a rational, a tie going to the even one.\<close>

definition round_half_even :: "rat \<Rightarrow> int" where
  "round_half_even z =
     (let f = \<lfloor>z\<rfloor>; r = z - of_int f
      in if r < 1 / 2 then f else if 1 / 2 < r then f + 1 else if even f then f else f + 1)"

text \<open>
  For \<open>a > 0\<close>, the exponent \<open>e\<close> with \<open>2 ^ e \<le> a < 2 ^ (e + 1)\<close>, computed from the
  number of bits of the integer part of \<open>a\<close> or of \<open>1 / a\<close>.
\<close>

definition log2floor :: "rat \<Rightarrow> int" where
  "log2floor a =
     (if 1 \<le> a then bitlen \<lfloor>a\<rfloor> - 1
      else (let j = bitlen \<lfloor>1 / a\<rfloor> - 1 in if a * 2 powi j = 1 then - j else - j - 1))"

text \<open>
  The exponent of the unit in the last place of the doubles around \<open>a\<close>: 53 bits of
  precision, and from \<open>2 ^ (-1022)\<close> downwards the fixed spacing \<open>2 ^ (-1074)\<close> of the
  subnormal numbers. \<open>nearest a\<close> is the multiple of that unit nearest to \<open>a\<close>, a tie
  going to the even multiple.
\<close>

definition ulpExponent :: "rat \<Rightarrow> int" where
  "ulpExponent a = max (log2floor a) (- 1022) - 52"

definition nearest :: "rat \<Rightarrow> rat" where
  "nearest a = of_int (round_half_even (a / 2 powi ulpExponent a)) * 2 powi ulpExponent a"

text \<open>
  Rounding to binary64, as every arithmetic operation and the reading of a number
  literal do: to the nearest double, and to an infinity when the nearest value is
  \<open>2 ^ 1024\<close> or more in magnitude.
\<close>

definition toDouble :: "rat \<Rightarrow> jsnum" where
  "toDouble x =
     (if x = 0 then Num 0
      else if 2 ^ 1024 \<le> nearest \<bar>x\<bar> then (if 0 < x then PInf else NInf)
      else Num (if 0 < x then nearest \<bar>x\<bar> else - nearest \<bar>x\<bar>))"

text \<open>
  The operators \<open>+\<close>, \<open>*\<close> and \<open>/\<close>: the exact result of the operation on two finite
  numbers, rounded to binary64; the rules of IEEE 754 for the infinities and NaN.
\<close>

fun jadd :: "jsnum \<Rightarrow> jsnum \<Rightarrow> jsnum" where
  "jadd NaN _ = NaN"
| "jadd _ NaN = NaN"
| "jadd (Num a) (Num b) = toDouble (a + b)"
| "jadd (Num a) PInf = PInf"
| "jadd (Num a) NInf = NInf"
| "jadd PInf (Num b) = PInf"
| "jadd NInf (Num b) = NInf"
| "jadd PInf PInf = PInf"
| "jadd PInf NInf = NaN"
| "jadd NInf PInf = NaN"
| "jadd NInf NInf = NInf"

fun jmul :: "jsnum \<Rightarrow> jsnum \<Rightarrow> jsnum" where
  "jmul NaN _ = NaN"
| "jmul _ NaN = NaN"
| "jmul (Num a) (Num b) = toDouble (a * b)"
| "jmul (Num a) PInf = (if a = 0 then NaN else if 0 < a then PInf else NInf)"
| "jmul (Num a) NInf = (if a = 0 then NaN else if 0 < a then NInf else PInf)"
| "jmul PInf (Num b) = (if b = 0 then NaN else if 0 < b then PInf else NInf)"
| "jmul NInf (Num b) = (if b = 0 then NaN else if 0 < b then NInf else PInf)"
| "jmul PInf PInf = PInf"
| "jmul PInf NInf = NInf"
| "jmul NInf PInf = NInf"
| "jmul NInf NInf = PInf"

fun jdiv :: "jsnum \<Rightarrow> jsnum \<Rightarrow> jsnum" where
  "jdiv NaN _ = NaN"
| "jdiv _ NaN = NaN"
| "jdiv (Num a) (Num b) =
     (if b = 0 then (if a = 0 then NaN else if 0 < a then PInf else NInf)
      else toDouble (a / b))"
| "jdiv (Num a) PInf = Num 0"
| "jdiv (Num a) NInf = Num 0"
| "jdiv PInf (Num b) = (if 0 \<le> b then PInf else NInf)"
| "jdiv NInf (Num b) = (if 0 \<le> b then NInf else PInf)"
| "jdiv PInf PInf = NaN"
| "jdiv PInf NInf = NaN"
| "jdiv NInf PInf = NaN"
| "jdiv NInf NInf = NaN"

text \<open>
  \<open>Math.round\<close>: the nearest integer, a tie going up. The result is exact: a double
  below \<open>2 ^ 52\<close> rounds to an integer that is a double, and a larger one is an integer.
\<close>

fun jround :: "jsnum \<Rightarrow> jsnum" where
  "jround (Num a) = Num (of_int \<lfloor>a + 1 / 2\<rfloor>)"
| "jround x = x"

text \<open>\<open>x > c\<close> for a number \<open>x\<close> and a finite \<open>c\<close>.\<close>

fun jgt :: "jsnum \<Rightarrow> rat \<Rightarrow> bool" where
  "jgt (Num a) c = (c < a)"
| "jgt PInf c = True"
| "jgt NInf c = False"
| "jgt NaN c = False"

section \<open>JavaScript values\<close>

text \<open>
  A field of the JSON request body: absent (\<open>undefined\<close> after destructuring),
  \<open>null\<close>, a boolean, a number or a string. A number is given by the exact value of
  its literal; its value in the program is that literal rounded to binary64. Arrays and
  objects as field values are not modelled. Strings are lists of 8-bit code units.
\<close>

datatype jsval = JUndefined | JNull | JBool bool | JNum rat | JStr string

text \<open>Truthiness, as \<open>!v\<close>, \<open>v ? a : b\<close> and \<open>v && w\<close> read it.\<close>

fun truthy :: "jsval \<Rightarrow> bool" where
  "truthy JUndefined = False"
| "truthy JNull = False"
| "truthy (JBool b) = b"
| "truthy (JNum r) = (toDouble r \<noteq> Num 0)"
| "truthy (JStr s) = (s \<noteq> [])"

section \<open>The environment: runtime functions and external providers\<close>

text \<open>
  What the program calls and this repository does not define is a parameter: the
  runtime's conversions between strings and numbers, the structured-generation provider
  and the search provider.
\<close>

datatype exn = Exn string

record item =
  item_title :: "string option"
  item_link :: "string option"
  item_snippet :: "string option"

text \<open>
  One element of \<open>WeightSchema.data\<close>, and the same object after its facts were
  replaced (\<open>{...category, facts: enhancedFacts}\<close>): the type of a fact is the
  parameter. The weight is the exact value of the number literal in the payload; the
  program computes with \<open>toDouble\<close> of it.
\<close>

record 'f category =
  category :: string
  weight :: rat
  facts :: "'f list"
  reasoning :: string

text \<open>
  \<open>completion.choices\<close> may be missing; a choice's \<open>message.parsed\<close> may be
  null, and holds the \<open>data\<close> array otherwise.
\<close>

type_synonym completion = "string category list option list option"

datatype ext_call = LLMCall string string | SearchCall string nat

record env =
  strToNum :: "string \<Rightarrow> jsnum"
  ratToStr :: "rat \<Rightarrow> string"
  toFixed1 :: "jsnum \<Rightarrow> string"
  generate :: "string \<Rightarrow> string \<Rightarrow> exn + completion"
  search :: "string \<Rightarrow> nat \<Rightarrow> exn + item list option"

text \<open>\<open>ToNumber\<close>, as \<open>daysPerYear * 24\<close> applies it.\<close>

fun toNumber :: "env \<Rightarrow> jsval \<Rightarrow> jsnum" where
  "toNumber e JUndefined = NaN"
| "toNumber e JNull = Num 0"
| "toNumber e (JBool b) = Num (if b then 1 else 0)"
| "toNumber e (JNum r) = toDouble r"
| "toNumber e (JStr s) = strToNum e s"

text \<open>\<open>ToString\<close>, as a template literal applies it.\<close>

fun numToStr :: "env \<Rightarrow> jsnum \<Rightarrow> string" where
  "numToStr e (Num r) = ratToStr e r"
| "numToStr e PInf = ''Infinity''"
| "numToStr e NInf = ''-Infinity''"
| "numToStr e NaN = ''NaN''"

fun toStr :: "env \<Rightarrow> jsval \<Rightarrow> string" where
  "toStr e JUndefined = ''undefined''"
| "toStr e JNull = ''null''"
| "toStr e (JBool b) = (if b then ''true'' else ''false'')"
| "toStr e (JNum r) = numToStr e (toDouble r)"
| "toStr e (JStr s) = s"

section \<open>calculateWeightsAndHours\<close>

text \<open>
  The callback of \<open>categories.map\<close> updates \<open>totalWeight\<close> and
  \<open>relevanceModifier\<close>; the state is the pair of the two, the loop a recursion over
  the categories in order. The mapped array \<open>enrichedCategories\<close> holds each category
  with its own weight written back, that is the categories unchanged.
\<close>

fun weightLoop :: "'f category list \<Rightarrow> jsnum \<times> jsnum \<Rightarrow> jsnum \<times> jsnum" where
  "weightLoop [] st = st"
| "weightLoop (c # cs) (totalWeight, relevanceModifier) =
     weightLoop cs
       (jadd totalWeight (toDouble (weight c)),
        if category c = ''Personal Relevance''
        then jadd (Num 1) (jdiv (toDouble (weight c)) (Num 10))
        else relevanceModifier)"

record 'f hours_result =
  enrichedCategories :: "'f category list"
  totalHours :: jsnum
  totalHoursDescription :: string

definition calculateWeightsAndHours ::
  "env \<Rightarrow> 'f category list \<Rightarrow> jsval \<Rightarrow> 'f hours_result" where
  "calculateWeightsAndHours e categories daysPerYear =
     (let totalAvailableHours = jmul (toNumber e daysPerYear) (Num 24);
          (totalWeight, relevanceModifier) = weightLoop categories (Num 0, Num 1);
          averageWeight = jdiv totalWeight (Num (of_nat (length categories)));
          hours = jround (jmul (jmul (jdiv averageWeight (Num 10))
                                      (jdiv totalAvailableHours (Num 5)))
                                relevanceModifier);
          modifiedDescription =
            (if jgt relevanceModifier 1
             then '' times personal relevance modifier '' @ numToStr e relevanceModifier @ '' ''
             else '''');
          description =
            ''Calculated total hours ('' @ numToStr e hours
            @ '') based on an average AI-generated weight of '' @ toFixed1 e averageWeight
            @ modifiedDescription @ '' across '' @ ratToStr e (of_nat (length categories))
            @ '' categories and '' @ numToStr e totalAvailableHours
            @ '' total available hours.''
      in \<lparr>enrichedCategories = categories, totalHours = hours,
          totalHoursDescription = description\<rparr>)"

section \<open>Strings\<close>

text \<open>
  The white space that \<open>String.prototype.trim\<close> removes, among the code units
  below 256: tab, line feed, vertical tab, form feed, carriage return, space and the
  no-break space.
\<close>

definition is_ws :: "char \<Rightarrow> bool" where
  "is_ws c = (c \<in> set [CHR 0x09, CHR 0x0A, CHR 0x0B, CHR 0x0C, CHR 0x0D, CHR 0x20, CHR 0xA0])"

definition trim :: "string \<Rightarrow> string" where
  "trim s = rev (dropWhile is_ws (rev (dropWhile is_ws s)))"

text \<open>\<open>Array.prototype.join\<close>.\<close>

fun join :: "string \<Rightarrow> string list \<Rightarrow> string" where
  "join sep [] = []"
| "join sep [x] = x"
| "join sep (x # y # ys) = x @ sep @ join sep (y # ys)"

text \<open>The decimal digits of a natural number, as a template literal prints a counter.\<close>

fun decimal :: "nat \<Rightarrow> string" where
  "decimal n =
     (if n < 10 then [char_of (48 + n)]
      else decimal (n div 10) @ [char_of (48 + n mod 10)])"

declare decimal.simps [simp del]

definition nl :: string where
  "nl = [CHR 0x0A]"

definition dq :: string where
  "dq = [CHR 0x22]"

section \<open>fetchRealSources\<close>

record source =
  title :: "string option"
  link :: "string option"
  snippet :: "string option"
  citation :: "string option"

text \<open>
  The search provider is called with the query and \<open>num: 3\<close>. \<open>Inl\<close> stands for
  everything that throws inside the \<open>try\<close> block: the request is rejected, or the
  payload cannot be read. \<open>Inr None\<close> is a payload without \<open>items\<close>. The
  \<open>catch\<close> block returns the empty array, so the function has no error result.
\<close>

definition fetchRealSources :: "env \<Rightarrow> string \<Rightarrow> source list" where
  "fetchRealSources e query =
     (case search e query 3 of
        Inl err \<Rightarrow> []
      | Inr None \<Rightarrow> []
      | Inr (Some items) \<Rightarrow>
          map (\<lambda>i. \<lparr>title = item_title i, link = item_link i,
                     snippet = item_snippet i, citation = None\<rparr>) items)"

section \<open>Promise.all\<close>

text \<open>
  The tasks of a \<open>Promise.all\<close> are started in the order of the array and settle in
  some other order. The order is given by a latency for each task: the task with the
  smaller latency settles first. When task \<open>i\<close> settles, its value is stored at index
  \<open>i\<close> of the result array; the promise resolves once every index is filled. No task
  of this program rejects: \<open>fetchRealSources\<close> catches its errors.
\<close>

definition completionOrder :: "(nat \<Rightarrow> nat) \<Rightarrow> nat \<Rightarrow> nat list" where
  "completionOrder latency n = sort_key latency [0..<n]"

definition promiseAll :: "(nat \<Rightarrow> nat) \<Rightarrow> 'a list \<Rightarrow> 'a list option" where
  "promiseAll latency tasks =
     those (fold (\<lambda>i slots. slots[i := Some (tasks ! i)])
              (completionOrder latency (length tasks))
              (replicate (length tasks) None))"

record schedule =
  factLatency :: "nat \<Rightarrow> nat \<Rightarrow> nat"
  categoryLatency :: "nat \<Rightarrow> nat"

section \<open>The enrichment pipeline\<close>

text \<open>
  The object \<open>{ fact, sources }\<close>; its field \<open>fact\<close> is \<open>fact_text\<close> here.
\<close>

record fact_entry =
  fact_text :: string
  sources :: "source list"

definition searchQuery :: "env \<Rightarrow> jsval \<Rightarrow> string \<Rightarrow> string" where
  "searchQuery e year f = f @ '' '' @ toStr e year"

definition enhanceFacts ::
  "env \<Rightarrow> (nat \<Rightarrow> nat) \<Rightarrow> jsval \<Rightarrow> string list \<Rightarrow> fact_entry list option" where
  "enhanceFacts e latency year fs =
     promiseAll latency
       (map (\<lambda>f. \<lparr>fact_text = f, sources = fetchRealSources e (searchQuery e year f)\<rparr>) fs)"

text \<open>
  The outer \<open>Promise.all\<close> over the categories: task \<open>i\<close> awaits the facts of
  category \<open>i\<close> and settles with \<open>{...category, facts: enhancedFacts}\<close>. A task
  whose facts never all settle never settles itself.
\<close>

definition withFacts :: "string category \<Rightarrow> fact_entry list \<Rightarrow> fact_entry category" where
  "withFacts c fs =
     \<lparr>category = category c, weight = weight c, facts = fs, reasoning = reasoning c\<rparr>"

definition enhanceData ::
  "env \<Rightarrow> schedule \<Rightarrow> jsval \<Rightarrow> string category list \<Rightarrow> fact_entry category list option" where
  "enhanceData e sch year data =
     (case those (map (\<lambda>(i, c). map_option (withFacts c)
                        (enhanceFacts e (factLatency sch i) year (facts c)))
                   (enumerate 0 data)) of
        None \<Rightarrow> None
      | Some tasks \<Rightarrow> promiseAll (categoryLatency sch) tasks)"

text \<open>The search calls, in the order in which they are started.\<close>

definition searchCalls :: "env \<Rightarrow> jsval \<Rightarrow> string category list \<Rightarrow> ext_call list" where
  "searchCalls e year data =
     concat (map (\<lambda>c. map (\<lambda>f. SearchCall (searchQuery e year f) 3) (facts c)) data)"

section \<open>Citations\<close>

definition has_link :: "source \<Rightarrow> bool" where
  "has_link s = (case link s of None \<Rightarrow> False | Some l \<Rightarrow> l \<noteq> [])"

definition label :: "nat \<Rightarrow> string" where
  "label n = ''['' @ decimal n @ '']''"

definition flatSources :: "fact_entry category list \<Rightarrow> source list" where
  "flatSources data = concat (map sources (concat (map facts data)))"

text \<open>
  The \<open>forEach\<close> over the flattened sources. The state is the counter and the
  citation map; the map keeps its keys in insertion order, as \<open>AList.update\<close> does.
  The loop writes \<open>citation\<close> into the source object itself, and the map holds that
  same object: the updated sources are returned in the order of the traversal.
\<close>

fun citePass ::
  "source list \<Rightarrow> nat \<Rightarrow> (nat \<times> source) list \<Rightarrow> source list \<times> nat \<times> (nat \<times> source) list" where
  "citePass [] citationCounter citationMap = ([], citationCounter, citationMap)"
| "citePass (s # ss) citationCounter citationMap =
     (if has_link s then
        (let s' = s\<lparr>citation := Some (label citationCounter)\<rparr>;
             (ss', n, m) = citePass ss (citationCounter + 1)
                             (AList.update citationCounter s' citationMap)
         in (s' # ss', n, m))
      else
        (let (ss', n, m) = citePass ss citationCounter citationMap
         in (s # ss', n, m)))"

text \<open>
  Every source object is created by one lookup and referenced by one fact, so the object
  at a position of the traversal is the source at that position of the nested data.
  Reading the data after the loop sees the updated objects.
\<close>

fun refillFacts :: "fact_entry list \<Rightarrow> source list \<Rightarrow> fact_entry list \<times> source list" where
  "refillFacts [] ss = ([], ss)"
| "refillFacts (f # fs) ss =
     (let k = length (sources f);
          (fs', rest) = refillFacts fs (drop k ss)
      in (f\<lparr>sources := take k ss\<rparr> # fs', rest))"

fun refill ::
  "fact_entry category list \<Rightarrow> source list \<Rightarrow> fact_entry category list" where
  "refill [] ss = []"
| "refill (c # cs) ss =
     (let (fs', rest) = refillFacts (facts c) ss
      in c\<lparr>facts := fs'\<rparr> # refill cs rest)"

text \<open>
  \<open>combinedSources\<close>: one entry per key of the citation map, in the order of the
  map. Its fields \<open>source\<close> and \<open>ground_news_link\<close> read properties that a source
  object does not have.
\<close>

record combined_source =
  cs_citation :: string
  cs_source :: "string option"
  cs_ground_news_link :: "string option"

definition combinedSources :: "(nat \<times> source) list \<Rightarrow> combined_source list" where
  "combinedSources citationMap =
     map (\<lambda>(key, v). \<lparr>cs_citation = label key, cs_source = None,
                        cs_ground_news_link = None\<rparr>) citationMap"

section \<open>The display order\<close>

definition sortOrder :: "string list" where
  "sortOrder = [''Statistical Impact'', ''Social Relevance'', ''Policy Impact Potential'',
                ''Personal Relevance'']"

text \<open>\<open>Array.prototype.indexOf\<close>: the first position of the element, or -1.\<close>

primrec indexFrom :: "int \<Rightarrow> string list \<Rightarrow> string \<Rightarrow> int" where
  "indexFrom i [] x = - 1"
| "indexFrom i (y # ys) x = (if y = x then i else indexFrom (i + 1) ys x)"

definition indexOf :: "string list \<Rightarrow> string \<Rightarrow> int" where
  "indexOf xs x = indexFrom 0 xs x"

text \<open>
  \<open>Array.prototype.sort\<close> is stable, and the comparator is the difference of two
  keys: the result is the stable sort by the key.
\<close>

definition sortData :: "string category list \<Rightarrow> string category list" where
  "sortData data = sort_key (\<lambda>c. indexOf sortOrder (category c)) data"

section \<open>The handler of POST /calculate-weight\<close>

record request =
  topic :: jsval
  personalImpact :: jsval
  biasPreference :: jsval
  year :: jsval
  daysPerYear :: jsval

text \<open>
  A response is a status and the JSON object given to \<open>res.json\<close>, as the list of
  its keys and values in the order of the object literal.
\<close>

datatype resp_val = RStr string | RNum jsnum | RWeights "fact_entry category list"

record response =
  status :: nat
  body :: "(string \<times> resp_val) list"

definition topicRequired :: response where
  "topicRequired = \<lparr>status = 400, body = [(''error'', RStr ''Topic input is required.'')]\<rparr>"

definition failed :: response where
  "failed = \<lparr>status = 500, body = [(''error'', RStr ''Failed to calculate topic weight.'')]\<rparr>"

text \<open>\<open>v.trim()\<close>: a value that is not a string has no such method, and the call throws.\<close>

fun trimOf :: "jsval \<Rightarrow> exn + string" where
  "trimOf (JStr s) = Inr (trim s)"
| "trimOf v = Inl (Exn ''TypeError'')"

text \<open>\<open>!topic || topic.trim().length === 0\<close>\<close>

definition topicMissing :: "jsval \<Rightarrow> exn + bool" where
  "topicMissing t =
     (if \<not> truthy t then Inr True
      else case trimOf t of Inl x \<Rightarrow> Inl x | Inr s \<Rightarrow> Inr (length s = 0))"

definition personalImpactContent :: "env \<Rightarrow> jsval \<Rightarrow> exn + string option" where
  "personalImpactContent e p =
     (if \<not> truthy p then Inr None
      else case trimOf p of
        Inl x \<Rightarrow> Inl x
      | Inr s \<Rightarrow>
          Inr (if s \<noteq> []
               then Some (''The user provided personal relevance: '' @ dq @ toStr e p
                          @ ''.'' @ dq)
               else None))"

definition biasPreferenceContent :: "env \<Rightarrow> jsval \<Rightarrow> string" where
  "biasPreferenceContent e b =
     (if truthy b then ''The user prefers a '' @ toStr e b @ '' perspective for this analysis.''
      else ''The user prefers a neutral perspective for this analysis.'')"

definition yearContent :: "env \<Rightarrow> jsval \<Rightarrow> string" where
  "yearContent e y =
     (if truthy y
      then ''Focus the analysis on data and context from around the year '' @ toStr e y @ ''.''
      else ''Focus the analysis on recent and relevant data.'')"

definition daysContent :: "env \<Rightarrow> jsval \<Rightarrow> string" where
  "daysContent e d =
     ''The user is willing to spend '' @ toStr e d @ '' days per year (''
     @ numToStr e (jmul (toNumber e d) (Num 24))
     @ '' full hours) on political reasoning, research, and discussion.''"

definition categoriesText :: "string option \<Rightarrow> string" where
  "categoriesText pic =
     (case pic of
        Some p \<Rightarrow>
          ''Statistical Impact, Social Relevance, Policy Impact Potential, and Personal Relevance''
      | None \<Rightarrow> ''Statistical Impact, Social Relevance, and Policy Impact Potential'')"

definition userContent :: "env \<Rightarrow> request \<Rightarrow> string option \<Rightarrow> string" where
  "userContent e req pic =
     ''Analyze the topic: '' @ dq @ toStr e (topic req) @ dq
     @ '' with the following considerations:'' @ nl @ nl
     @ (case pic of Some p \<Rightarrow> p | None \<Rightarrow> []) @ nl
     @ biasPreferenceContent e (biasPreference req) @ nl
     @ yearContent e (year req) @ nl
     @ daysContent e (daysPerYear req) @ nl @ nl
     @ ''Return structured output for each category.''"

text \<open>
  The check of the completion: no choices, no first choice or no parsed payload throws.
\<close>

definition parsedData :: "completion \<Rightarrow> exn + string category list" where
  "parsedData c =
     (case c of
        None \<Rightarrow> Inl (Exn ''Invalid response format from OpenAI.'')
      | Some [] \<Rightarrow> Inl (Exn ''Invalid response format from OpenAI.'')
      | Some (None # rest) \<Rightarrow> Inl (Exn ''Invalid response format from OpenAI.'')
      | Some (Some d # rest) \<Rightarrow> Inr d)"

definition analysisSummary :: "env \<Rightarrow> string \<Rightarrow> string category list \<Rightarrow> string" where
  "analysisSummary e description data =
     nl @ ''      '' @ description @ nl @ ''      Key Insights: ''
     @ join '', '' (map (\<lambda>w. category w @ '': '' @ numToStr e (toDouble (weight w)) @ ''/10'')
                    data)
     @ ''.'' @ nl @ ''    ''"

text \<open>
  The handler after the payload was parsed: sort, enrich, number the citations,
  aggregate, answer. \<open>None\<close> is a request that is never answered.
\<close>

definition respond ::
  "env \<Rightarrow> schedule \<Rightarrow> request \<Rightarrow> string category list \<Rightarrow> response option" where
  "respond e sch req data =
     (let sorted = sortData data in
      case enhanceData e sch (year req) sorted of
        None \<Rightarrow> None
      | Some enhancedData \<Rightarrow>
          (let (cited, citationCounter, citationMap) = citePass (flatSources enhancedData) 1 [];
               weights = refill enhancedData cited;
               r = calculateWeightsAndHours e weights (daysPerYear req);
               combined = combinedSources citationMap;
               summary = analysisSummary e (totalHoursDescription r) sorted
           in Some \<lparr>status = 200,
                    body = [(''weights'', RWeights weights),
                            (''totalHours'', RNum (totalHours r)),
                            (''totalHoursDescription'', RStr (totalHoursDescription r)),
                            (''analysisContext'', RStr summary)]\<rparr>))"

text \<open>
  The handler returns the response and the external calls it made, in the order in
  which they were started. The call of the generation provider is recorded with the two
  parts of its messages that vary: the category list of the system message and the user
  message. Every exception is caught and answered with status 500.
\<close>

definition handler :: "env \<Rightarrow> schedule \<Rightarrow> request \<Rightarrow> response option \<times> ext_call list" where
  "handler e sch req =
     (case topicMissing (topic req) of
        Inl x \<Rightarrow> (Some failed, [])
      | Inr True \<Rightarrow> (Some topicRequired, [])
      | Inr False \<Rightarrow>
          (case personalImpactContent e (personalImpact req) of
             Inl x \<Rightarrow> (Some failed, [])
           | Inr pic \<Rightarrow>
               (let call = LLMCall (categoriesText pic) (userContent e req pic) in
                case generate e (categoriesText pic) (userContent e req pic) of
                  Inl x \<Rightarrow> (Some failed, [call])
                | Inr completion \<Rightarrow>
                    (case parsedData completion of
                       Inl x \<Rightarrow> (Some failed, [call])
                     | Inr data \<Rightarrow>
                         (respond e sch req data,
                          call # searchCalls e (year req) (sortData data))))))"

section \<open>Example data\<close>

text \<open>
  A provider that returns two categories out of display order; a search index that fails
  for one query, returns the same link for the others and one item without a link; a
  request without a year; and two schedules with opposite completion orders.
\<close>

definition demoData :: "string category list" where
  "demoData =
     [\<lparr>category = ''Social Relevance'', weight = 6, facts = [''b''], reasoning = ''r2''\<rparr>,
      \<lparr>category = ''Statistical Impact'', weight = 8, facts = [''a'', ''x''],
       reasoning = ''r1''\<rparr>]"

definition demoSearch :: "string \<Rightarrow> nat \<Rightarrow> exn + item list option" where
  "demoSearch q n =
     (if q = ''x undefined'' then Inl (Exn ''timeout'')
      else if q = ''a undefined'' then
        Inr (Some (take n [\<lparr>item_title = Some ''t1'', item_link = Some ''http://u'',
                            item_snippet = Some ''s1''\<rparr>,
                           \<lparr>item_title = Some ''t2'', item_link = None,
                            item_snippet = Some ''s2''\<rparr>]))
      else
        Inr (Some (take n [\<lparr>item_title = Some ''t3'', item_link = Some ''http://u'',
                            item_snippet = Some ''s3''\<rparr>])))"

definition demoEnv :: env where
  "demoEnv =
     \<lparr>strToNum = (\<lambda>s. NaN),
      ratToStr = (\<lambda>r. decimal (nat \<lfloor>r\<rfloor>)),
      toFixed1 = (\<lambda>x. ''?''),
      generate = (\<lambda>cats content. Inr (Some [Some demoData])),
      search = demoSearch\<rparr>"

definition demoRequest :: request where
  "demoRequest =
     \<lparr>topic = JStr ''tax'', personalImpact = JUndefined, biasPreference = JUndefined,
      year = JUndefined, daysPerYear = JNum 10\<rparr>"

definition demoSchedule :: schedule where
  "demoSchedule = \<lparr>factLatency = (\<lambda>i j. 9 - j), categoryLatency = (\<lambda>i. 9 - i)\<rparr>"

definition demoSchedule' :: schedule where
  "demoSchedule' = \<lparr>factLatency = (\<lambda>i j. j), categoryLatency = (\<lambda>i. i)\<rparr>"

definition demoCategory :: "string \<Rightarrow> rat \<Rightarrow> string category" where
  "demoCategory name w = \<lparr>category = name, weight = w, facts = [], reasoning = ''r''\<rparr>"


section \<open>The aggregator in the words of the specification\<close>

text \<open>
  The average weight, the relevance modifier (the last Personal Relevance category in
  the order of iteration decides) and the total, as the specification computes them on
  exact numbers.
\<close>

definition spec_averageWeight :: "'f category list \<Rightarrow> rat" where
  "spec_averageWeight cs = sum_list (map weight cs) / of_nat (length cs)"

definition spec_relevanceModifier :: "'f category list \<Rightarrow> rat" where
  "spec_relevanceModifier cs =
     (case filter (\<lambda>c. category c = ''Personal Relevance'') cs of
        [] \<Rightarrow> 1
      | p # ps \<Rightarrow> 1 + weight (last (p # ps)) / 10)"

definition spec_round :: "rat \<Rightarrow> int" where
  "spec_round x = \<lfloor>x + 1 / 2\<rfloor>"

definition spec_totalHours :: "'f category list \<Rightarrow> rat \<Rightarrow> int" where
  "spec_totalHours cs d =
     spec_round ((spec_averageWeight cs / 10) * ((d * 24) / 5) * spec_relevanceModifier cs)"

text \<open>
  The same quantities as the code computes them, in binary64: every literal and the
  result of every operation is rounded to the nearest double, the sum of the weights is
  accumulated from the left, and the product is taken in the order of the formula.
\<close>

definition fp_sum :: "jsnum \<Rightarrow> rat list \<Rightarrow> jsnum" where
  "fp_sum s ws = foldl (\<lambda>s w. jadd s (toDouble w)) s ws"

definition fp_averageWeight :: "'f category list \<Rightarrow> jsnum" where
  "fp_averageWeight cs = jdiv (fp_sum (Num 0) (map weight cs)) (Num (of_nat (length cs)))"

definition fp_relevanceModifier :: "'f category list \<Rightarrow> jsnum" where
  "fp_relevanceModifier cs =
     (case filter (\<lambda>c. category c = ''Personal Relevance'') cs of
        [] \<Rightarrow> Num 1
      | p # ps \<Rightarrow> jadd (Num 1) (jdiv (toDouble (weight (last (p # ps)))) (Num 10)))"

definition fp_totalHours :: "'f category list \<Rightarrow> jsnum \<Rightarrow> jsnum" where
  "fp_totalHours cs d =
     jround (jmul (jmul (jdiv (fp_averageWeight cs) (Num 10)) (jdiv (jmul d (Num 24)) (Num 5)))
                  (fp_relevanceModifier cs))"

section \<open>Derived notions\<close>

text \<open>
  The result of the lookups when they are made one after the other, in the order of the
  facts: what every \<open>Promise.all\<close> of the pipeline resolves with.
\<close>

definition resolveFacts :: "env \<Rightarrow> jsval \<Rightarrow> string list \<Rightarrow> fact_entry list" where
  "resolveFacts e yr fs =
     map (\<lambda>f. \<lparr>fact_text = f, sources = fetchRealSources e (searchQuery e yr f)\<rparr>) fs"

definition resolved :: "env \<Rightarrow> jsval \<Rightarrow> string category list \<Rightarrow> fact_entry category list" where
  "resolved e yr data = map (\<lambda>c. withFacts c (resolveFacts e yr (facts c))) data"

text \<open>The sources of a list of facts, in order.\<close>

definition flatFacts :: "fact_entry list \<Rightarrow> source list" where
  "flatFacts fs = concat (map sources fs)"

text \<open>
  The weights of the 200 response: the resolved data of the sorted categories, read after
  the citation pass.
\<close>

definition citedWeights :: "env \<Rightarrow> jsval \<Rightarrow> string category list \<Rightarrow> fact_entry category list" where
  "citedWeights e yr data =
     refill (resolved e yr (sortData data))
       (fst (citePass (flatSources (resolved e yr (sortData data))) 1 []))"

text \<open>The 200 response for a parsed payload.\<close>

definition okResponse :: "env \<Rightarrow> request \<Rightarrow> string category list \<Rightarrow> response" where
  "okResponse e req data =
     \<lparr>status = 200,
      body = [(''weights'', RWeights (citedWeights e (year req) data)),
              (''totalHours'',
                 RNum (totalHours (calculateWeightsAndHours e (citedWeights e (year req) data)
                                     (daysPerYear req)))),
              (''totalHoursDescription'',
                 RStr (totalHoursDescription
                         (calculateWeightsAndHours e (citedWeights e (year req) data)
                            (daysPerYear req)))),
              (''analysisContext'',
                 RStr (analysisSummary e
                         (totalHoursDescription
                            (calculateWeightsAndHours e (citedWeights e (year req) data)
                               (daysPerYear req)))
                         (sortData data)))]\<rparr>"

text \<open>Readers of a response: its weights, the link and citation of every source, its keys.\<close>

definition responseWeights :: "response \<Rightarrow> fact_entry category list" where
  "responseWeights r = (case map_of (body r) ''weights'' of Some (RWeights ws) \<Rightarrow> ws | _ \<Rightarrow> [])"

definition responseCitations :: "response \<Rightarrow> (string option \<times> string option) list" where
  "responseCitations r = map (\<lambda>s. (link s, citation s)) (flatSources (responseWeights r))"

definition responseKeys :: "response \<Rightarrow> string list" where
  "responseKeys r = map fst (body r)"

text \<open>The sort key of a category: the position of its name in the display order.\<close>

definition displayKey :: "string category \<Rightarrow> int" where
  "displayKey c = indexOf sortOrder (category c)"

text \<open>
  The number of a source in first-encounter order: one more than the number of sources
  with a link before position \<open>i\<close> of the traversal.
\<close>

definition citationId :: "source list \<Rightarrow> nat \<Rightarrow> nat" where
  "citationId ss i = 1 + length (filter has_link (take i ss))"

text \<open>A source as the lookup returned it, before the citation pass.\<close>

definition uncited :: "source \<Rightarrow> source" where
  "uncited s = s\<lparr>citation := None\<rparr>"

text \<open>A source with a link, for the examples of the citation pass.\<close>

definition demoSource :: source where
  "demoSource = \<lparr>title = Some ''t'', link = Some ''http://u'', snippet = None, citation = None\<rparr>"

text \<open>The order of the numbers; NaN is not comparable.\<close>

fun jle :: "jsnum \<Rightarrow> jsnum \<Rightarrow> bool" where
  "jle (Num a) (Num b) = (a \<le> b)"
| "jle (Num a) PInf = True"
| "jle PInf PInf = True"
| "jle NInf (Num b) = True"
| "jle NInf PInf = True"
| "jle NInf NInf = True"
| "jle x y = False"

text \<open>A number that is not negative, or positive infinity.\<close>

definition nonneg_or_inf :: "jsnum \<Rightarrow> bool" where
  "nonneg_or_inf x = (case x of Num r \<Rightarrow> 0 \<le> r | PInf \<Rightarrow> True | NInf \<Rightarrow> False | NaN \<Rightarrow> False)"

section \<open>Rounding to the nearest double\<close>

lemma bitlen_numeral [simp]:
  "bitlen 1 = 1"
  "bitlen (numeral Num.One) = 1"
  "bitlen (numeral (Num.Bit0 n)) = bitlen (numeral n) + 1"
  "bitlen (numeral (Num.Bit1 n)) = bitlen (numeral n) + 1"
proof -
  show "bitlen 1 = 1" by (subst compute_bitlen) simp
  then show "bitlen (numeral Num.One) = 1" by simp
  show "bitlen (numeral (Num.Bit0 n)) = bitlen (numeral n) + 1"
    by (subst compute_bitlen) simp
  show "bitlen (numeral (Num.Bit1 n)) = bitlen (numeral n) + 1"
    by (subst compute_bitlen) simp
qed

lemma floor_rat_numeral [simp]:
  "\<lfloor>numeral a / numeral b :: rat\<rfloor> = numeral a div numeral b"
  using floor_divide_of_int_eq [of "numeral a" "numeral b", where ?'a = rat] by simp

lemmas toDouble_eval =
  toDouble_def nearest_def ulpExponent_def log2floor_def round_half_even_def Let_def

lemma two_powi_nat: "0 \<le> e \<Longrightarrow> (2::rat) powi e = 2 ^ nat e"
  by (simp add: power_int_def)

lemma two_powi_mono: "e \<le> e' \<Longrightarrow> (2::rat) powi e \<le> 2 powi e'"
  by (rule power_int_increasing) simp_all

lemma two_powi_Suc: "(2::rat) powi (e + 1) = 2 * 2 powi e"
  by (simp add: power_int_add)

lemma floor_binade:
  assumes "1 \<le> (b::rat)"
  shows "2 powi (bitlen \<lfloor>b\<rfloor> - 1) \<le> b \<and> b < 2 powi (bitlen \<lfloor>b\<rfloor>)"
proof -
  let ?n = "\<lfloor>b\<rfloor>"
  have n: "0 < ?n" using assms by linarith
  from bitlen_bounds [OF n]
  have lo: "2 ^ nat (bitlen ?n - 1) \<le> ?n" and hi: "?n < 2 ^ nat (bitlen ?n)"
    by simp_all
  have pos: "1 \<le> bitlen ?n"
    using n bitlen_eq_zero_iff [of ?n] bitlen_nonneg [of ?n] by linarith
  have "(2::rat) powi (bitlen ?n - 1) = of_int (2 ^ nat (bitlen ?n - 1))"
    using pos by (simp add: two_powi_nat)
  also have "\<dots> \<le> of_int ?n"
    using lo by (simp only: of_int_le_iff)
  also have "\<dots> \<le> b" by simp
  finally have low: "2 powi (bitlen ?n - 1) \<le> b" .
  have "?n + 1 \<le> 2 ^ nat (bitlen ?n)" using hi by simp
  then have "(of_int (?n + 1) :: rat) \<le> of_int (2 ^ nat (bitlen ?n))"
    by (simp only: of_int_le_iff)
  moreover have "b < of_int (?n + 1)" by linarith
  moreover have "(2::rat) powi (bitlen ?n) = of_int (2 ^ nat (bitlen ?n))"
    using pos by (simp add: two_powi_nat)
  ultimately have "b < 2 powi (bitlen ?n)" by simp
  with low show ?thesis ..
qed

lemma log2floor_bounds:
  assumes "0 < a"
  shows "2 powi (log2floor a) \<le> a \<and> a < 2 powi (log2floor a + 1)"
proof (cases "1 \<le> a")
  case True
  with floor_binade [OF True] show ?thesis
    by (simp add: log2floor_def)
next
  case False
  define j where "j = bitlen \<lfloor>1 / a\<rfloor> - 1"
  have b: "1 \<le> 1 / a" using assms False by simp
  from floor_binade [OF b]
  have lo: "2 powi j \<le> 1 / a" and hi: "1 / a < 2 powi (j + 1)"
    by (simp_all add: j_def)
  have p: "0 < (2::rat) powi j" "0 < (2::rat) powi (j + 1)" by simp_all
  have inv: "(2::rat) powi (- j) = 1 / 2 powi j"
    by (simp add: power_int_minus field_simps)
  have inv': "(2::rat) powi (- j - 1) = 1 / 2 powi (j + 1)"
  proof -
    have "- j - 1 = - (j + 1)" by simp
    then show ?thesis by (simp only: power_int_minus inverse_eq_divide)
  qed
  have up: "a \<le> 2 powi (- j)"
  proof -
    have "a * 2 powi j \<le> 1"
      using lo assms by (simp add: field_simps)
    then have "a \<le> 1 / 2 powi j"
      using p(1) by (simp add: field_simps)
    then show ?thesis by (simp only: inv)
  qed
  have down: "2 powi (- j - 1) < a"
  proof -
    have "1 < a * 2 powi (j + 1)"
      using hi assms by (simp add: field_simps)
    then have "1 / 2 powi (j + 1) < a"
      using p(2) by (simp add: field_simps)
    then show ?thesis by (simp only: inv')
  qed
  show ?thesis
  proof (cases "a * 2 powi j = 1")
    case True
    then have a: "a = 2 powi (- j)"
      using p(1) unfolding inv by (simp add: field_simps)
    have e: "log2floor a = - j"
      using False True by (simp add: log2floor_def Let_def j_def)
    have "a < 2 * a" using assms by simp
    then have "a < 2 powi (- j + 1)"
      unfolding two_powi_Suc a [symmetric] .
    with e a show ?thesis by simp
  next
    case ne: False
    have e: "log2floor a = - j - 1"
      using False ne by (simp add: log2floor_def Let_def j_def)
    have "a \<noteq> 2 powi (- j)"
    proof
      assume "a = 2 powi (- j)"
      then have "a * 2 powi j = 1"
        unfolding inv using p(1) by simp
      with ne show False ..
    qed
    with up have "a < 2 powi (- j)" by simp
    with down e show ?thesis by simp
  qed
qed

lemma log2floor_mono:
  assumes "0 < a" and "a \<le> b"
  shows "log2floor a \<le> log2floor b"
proof (rule ccontr)
  assume "\<not> log2floor a \<le> log2floor b"
  then have "log2floor b + 1 \<le> log2floor a" by simp
  then have "(2::rat) powi (log2floor b + 1) \<le> 2 powi (log2floor a)" by (rule two_powi_mono)
  moreover have "0 < b" using assms by simp
  ultimately show False
    using log2floor_bounds [OF assms(1)] log2floor_bounds [OF \<open>0 < b\<close>] assms(2) by linarith
qed

lemma round_half_even_int [simp]: "round_half_even (of_int k) = k"
  by (simp add: round_half_even_def)

lemma round_half_even_bounds:
  "\<lfloor>z\<rfloor> \<le> round_half_even z" "round_half_even z \<le> \<lfloor>z\<rfloor> + 1"
  by (simp_all add: round_half_even_def Let_def)

lemma round_half_even_ge:
  assumes "of_int k \<le> z"
  shows "k \<le> round_half_even z"
proof -
  have "k \<le> \<lfloor>z\<rfloor>" using assms by (simp add: le_floor_iff)
  with round_half_even_bounds(1) [of z] show ?thesis by linarith
qed

lemma round_half_even_le:
  assumes "z \<le> of_int k"
  shows "round_half_even z \<le> k"
proof (cases "z = of_int k")
  case True
  then show ?thesis by simp
next
  case False
  with assms have "z < of_int k" by simp
  then have "\<lfloor>z\<rfloor> < k" by (simp add: floor_less_iff)
  with round_half_even_bounds(2) [of z] show ?thesis by linarith
qed

lemma round_half_even_mono:
  assumes "z \<le> z'"
  shows "round_half_even z \<le> round_half_even z'"
proof (cases "\<lfloor>z\<rfloor> = \<lfloor>z'\<rfloor>")
  case True
  with assms have "z - of_int \<lfloor>z\<rfloor> \<le> z' - of_int \<lfloor>z'\<rfloor>"
    by simp
  with True show ?thesis
    by (auto simp add: round_half_even_def Let_def)
next
  case False
  with assms have "\<lfloor>z\<rfloor> < \<lfloor>z'\<rfloor>"
    using floor_mono [OF assms] by linarith
  with round_half_even_bounds(2) [of z] round_half_even_bounds(1) [of z']
  show ?thesis by linarith
qed

lemma ulpExponent_mono: "0 < a \<Longrightarrow> a \<le> b \<Longrightarrow> ulpExponent a \<le> ulpExponent b"
  using log2floor_mono [of a b] by (simp add: ulpExponent_def)

lemma nearest_nonneg:
  assumes "0 < a"
  shows "0 \<le> nearest a"
proof -
  have "0 \<le> a / 2 powi ulpExponent a" using assms by simp
  then have "0 \<le> round_half_even (a / 2 powi ulpExponent a)"
    using round_half_even_ge [of 0] by simp
  then show ?thesis by (simp add: nearest_def)
qed

lemma nearest_upper:
  assumes "0 < a"
  shows "nearest a \<le> 2 powi (ulpExponent a + 53)"
proof -
  let ?q = "ulpExponent a"
  have "log2floor a + 1 \<le> ?q + 53" by (simp add: ulpExponent_def)
  then have "(2::rat) powi (log2floor a + 1) \<le> 2 powi (?q + 53)" by (rule two_powi_mono)
  with log2floor_bounds [OF assms] have "a \<le> 2 powi (?q + 53)" by linarith
  also have "\<dots> = 2 ^ 53 * 2 powi ?q" by (simp add: power_int_add)
  finally have "a / 2 powi ?q \<le> of_int (2 ^ 53)"
    by (simp add: field_simps)
  then have "round_half_even (a / 2 powi ?q) \<le> 2 ^ 53"
    by (rule round_half_even_le)
  then have "(of_int (round_half_even (a / 2 powi ?q)) :: rat) \<le> of_int (2 ^ 53)"
    by (simp only: of_int_le_iff)
  then have "nearest a \<le> 2 ^ 53 * 2 powi ?q"
    unfolding nearest_def by (intro mult_right_mono) simp_all
  then show ?thesis by (simp add: power_int_add)
qed

lemma nearest_lower:
  assumes "0 < a" and "- 1022 \<le> log2floor a"
  shows "2 powi (ulpExponent a + 52) \<le> nearest a"
proof -
  let ?q = "ulpExponent a"
  have q: "?q + 52 = log2floor a" using assms(2) by (simp add: ulpExponent_def)
  have "2 powi (?q + 52) \<le> a"
    unfolding q using log2floor_bounds [OF assms(1)] by simp
  then have "2 ^ 52 * 2 powi ?q \<le> a" by (simp add: power_int_add)
  then have "of_int (2 ^ 52) \<le> a / 2 powi ?q"
    by (simp add: field_simps)
  then have "2 ^ 52 \<le> round_half_even (a / 2 powi ?q)"
    by (rule round_half_even_ge)
  then have "(of_int (2 ^ 52) :: rat) \<le> of_int (round_half_even (a / 2 powi ?q))"
    by (simp only: of_int_le_iff)
  then have "2 ^ 52 * 2 powi ?q \<le> nearest a"
    unfolding nearest_def by (intro mult_right_mono) simp_all
  then show ?thesis by (simp add: power_int_add)
qed

lemma nearest_mono:
  assumes "0 < a" and "a \<le> b"
  shows "nearest a \<le> nearest b"
proof -
  have b: "0 < b" using assms by simp
  have le: "ulpExponent a \<le> ulpExponent b" using assms by (rule ulpExponent_mono)
  show ?thesis
  proof (cases "ulpExponent a = ulpExponent b")
    case True
    have "a / 2 powi ulpExponent b \<le> b / 2 powi ulpExponent b"
      using assms(2) by (simp add: divide_right_mono)
    then have "round_half_even (a / 2 powi ulpExponent b) \<le> round_half_even (b / 2 powi ulpExponent b)"
      by (rule round_half_even_mono)
    then have "(of_int (round_half_even (a / 2 powi ulpExponent b)) :: rat)
               \<le> of_int (round_half_even (b / 2 powi ulpExponent b))"
      by (simp only: of_int_le_iff)
    then show ?thesis
      unfolding nearest_def True by (intro mult_right_mono) simp_all
  next
    case False
    with le have lt: "ulpExponent a + 1 \<le> ulpExponent b" by simp
    then have big: "- 1022 \<le> log2floor b"
      by (simp add: ulpExponent_def max_def split: if_splits)
    have "nearest a \<le> 2 powi (ulpExponent a + 53)"
      using assms(1) by (rule nearest_upper)
    also have "\<dots> \<le> 2 powi (ulpExponent b + 52)"
      using lt by (intro two_powi_mono) simp
    also have "\<dots> \<le> nearest b"
      using b big by (rule nearest_lower)
    finally show ?thesis .
  qed
qed

lemma nearest_int:
  assumes "0 < k" and "k < 2 ^ 53"
  shows "nearest (of_int k) = of_int k"
proof -
  let ?a = "of_int k :: rat"
  have pos: "0 < ?a" using assms(1) by simp
  note b = log2floor_bounds [OF pos]
  have lo: "0 \<le> log2floor ?a"
  proof (rule ccontr)
    assume "\<not> 0 \<le> log2floor ?a"
    then have "log2floor ?a + 1 \<le> 0" by simp
    then have "(2::rat) powi (log2floor ?a + 1) \<le> 2 powi 0" by (rule two_powi_mono)
    moreover have "1 \<le> ?a" using assms(1) by simp
    ultimately show False using b by simp
  qed
  have hi: "log2floor ?a \<le> 52"
  proof (rule ccontr)
    assume "\<not> log2floor ?a \<le> 52"
    then have "53 \<le> log2floor ?a" by simp
    then have "(2::rat) powi 53 \<le> 2 powi (log2floor ?a)" by (rule two_powi_mono)
    moreover have "?a < 2 ^ 53"
      using assms(2) by (metis of_int_less_iff of_int_numeral of_int_power)
    ultimately show False using b by simp
  qed
  define s where "s = nat (52 - log2floor ?a)"
  have q: "ulpExponent ?a = - int s"
    using lo hi by (simp add: ulpExponent_def s_def)
  have p: "(2::rat) powi (- int s) = 1 / 2 ^ s"
    by (simp add: power_int_minus field_simps)
  have "?a / 2 powi (- int s) = of_int (k * 2 ^ s)"
    by (simp add: p)
  then have "round_half_even (?a / 2 powi (- int s)) = k * 2 ^ s"
    by (simp only: round_half_even_int)
  then show ?thesis
    unfolding nearest_def q by (simp add: p)
qed

lemma toDouble_pos:
  "0 < x \<Longrightarrow> toDouble x = (if 2 ^ 1024 \<le> nearest x then PInf else Num (nearest x))"
  by (simp add: toDouble_def)

lemma toDouble_zero [simp]: "toDouble 0 = Num 0"
  by (simp add: toDouble_def)

lemma toDouble_int:
  assumes "0 \<le> k" and "k < 2 ^ 53"
  shows "toDouble (of_int k) = Num (of_int k)"
proof (cases "k = 0")
  case True
  then show ?thesis by simp
next
  case False
  with assms have k: "0 < k" by simp
  have "(of_int k :: rat) < 2 ^ 1024"
  proof -
    have "k < 2 ^ 1024" using assms(2) by (rule less_trans) simp
    then show ?thesis by (metis of_int_less_iff of_int_numeral of_int_power)
  qed
  then show ?thesis
    using k by (simp add: toDouble_pos nearest_int [OF k assms(2)])
qed

lemma toDouble_nonneg:
  assumes "0 \<le> x"
  shows "toDouble x = PInf \<or> (\<exists>r\<ge>0. toDouble x = Num r)"
proof (cases "x = 0")
  case True
  then show ?thesis by simp
next
  case False
  with assms have "0 < x" by simp
  then show ?thesis
    using nearest_nonneg [of x] by (simp add: toDouble_pos)
qed

lemma toDouble_mono:
  assumes "0 \<le> x" and "x \<le> y"
  shows "jle (toDouble x) (toDouble y)"
proof (cases "x = 0")
  case True
  with toDouble_nonneg [of y] assms show ?thesis by auto
next
  case False
  with assms have x: "0 < x" and y: "0 < y" by simp_all
  have "nearest x \<le> nearest y" using x assms(2) by (rule nearest_mono)
  then show ?thesis
    using x y by (simp add: toDouble_pos)
qed

section \<open>Properties of the aggregator\<close>

lemma weightLoop_eq:
  "weightLoop cs (tw, rm) =
     (fp_sum tw (map weight cs),
      case filter (\<lambda>c. category c = ''Personal Relevance'') cs of
        [] \<Rightarrow> rm
      | p # ps \<Rightarrow> jadd (Num 1) (jdiv (toDouble (weight (last (p # ps)))) (Num 10)))"
proof (induction cs arbitrary: tw rm)
  case Nil
  then show ?case by (simp add: fp_sum_def)
next
  case (Cons c cs)
  show ?case
    by (simp add: Cons.IH fp_sum_def split: list.split)
qed

lemma totalHours_fp:
  "totalHours (calculateWeightsAndHours e cs dv) = fp_totalHours cs (toNumber e dv)"
  by (simp add: calculateWeightsAndHours_def weightLoop_eq Let_def fp_totalHours_def
      fp_averageWeight_def fp_relevanceModifier_def)

lemma ex_avg3:
  "fp_averageWeight [demoCategory ''Statistical Impact'' 8, demoCategory ''Social Relevance'' 6,
       demoCategory ''Policy Impact Potential'' 4] = Num 6"
  by (simp add: fp_averageWeight_def fp_sum_def demoCategory_def toDouble_eval)

lemma ex_avg4:
  "fp_averageWeight [demoCategory ''Statistical Impact'' 8, demoCategory ''Social Relevance'' 6,
       demoCategory ''Policy Impact Potential'' 4, demoCategory ''Personal Relevance'' 5]
   = Num (23 / 4)"
  by (simp add: fp_averageWeight_def fp_sum_def demoCategory_def toDouble_eval)

lemma ex_mod3:
  "fp_relevanceModifier [demoCategory ''Statistical Impact'' 8, demoCategory ''Social Relevance'' 6,
       demoCategory ''Policy Impact Potential'' 4] = Num 1"
  by (simp add: fp_relevanceModifier_def demoCategory_def)

lemma ex_mod4:
  "fp_relevanceModifier [demoCategory ''Statistical Impact'' 8, demoCategory ''Social Relevance'' 6,
       demoCategory ''Policy Impact Potential'' 4, demoCategory ''Personal Relevance'' 5]
   = Num (3 / 2)"
  by (simp add: fp_relevanceModifier_def demoCategory_def toDouble_eval)

lemma ex_hours_10: "jdiv (jmul (toDouble 10) (Num 24)) (Num 5) = Num 48"
  by (simp add: toDouble_eval)

lemma ex_hours_75: "jdiv (jmul (toDouble 75) (Num 24)) (Num 5) = Num 360"
  by (simp add: toDouble_eval)

lemma ex_six_tenths: "jdiv (Num 6) (Num 10) = Num (5404319552844595 / 2 ^ 53)"
  by (simp add: toDouble_eval)

lemma ex_575: "jdiv (Num (23 / 4)) (Num 10) = Num (5179139571476070 / 2 ^ 53)"
  by (simp add: toDouble_eval)

lemma example_three_categories:
  "totalHours (calculateWeightsAndHours e
      [demoCategory ''Statistical Impact'' 8, demoCategory ''Social Relevance'' 6,
       demoCategory ''Policy Impact Potential'' 4] (JNum 10)) = Num 29"
  unfolding totalHours_fp fp_totalHours_def ex_avg3 ex_mod3 toNumber.simps ex_hours_10
    ex_six_tenths
  by (simp add: toDouble_eval)

lemma example_four_categories:
  "totalHours (calculateWeightsAndHours e
      [demoCategory ''Statistical Impact'' 8, demoCategory ''Social Relevance'' 6,
       demoCategory ''Policy Impact Potential'' 4, demoCategory ''Personal Relevance'' 5]
      (JNum 10)) = Num 41"
  unfolding totalHours_fp fp_totalHours_def ex_avg4 ex_mod4 toNumber.simps ex_hours_10 ex_575
  by (simp add: toDouble_eval)

lemma example_75_days:
  "totalHours (calculateWeightsAndHours e
      [demoCategory ''Statistical Impact'' 8, demoCategory ''Social Relevance'' 6,
       demoCategory ''Policy Impact Potential'' 4, demoCategory ''Personal Relevance'' 5]
      (JNum 75)) = Num 310"
  unfolding totalHours_fp fp_totalHours_def ex_avg4 ex_mod4 toNumber.simps ex_hours_75 ex_575
  by (simp add: toDouble_eval)

lemma exact_75_days:
  "spec_totalHours
      [demoCategory ''Statistical Impact'' 8, demoCategory ''Social Relevance'' 6,
       demoCategory ''Policy Impact Potential'' 4, demoCategory ''Personal Relevance'' 5] 75
   = 311"
  by (simp add: spec_totalHours_def spec_averageWeight_def spec_relevanceModifier_def
      spec_round_def demoCategory_def)

lemma nonneg_or_inf_simps [simp]:
  "nonneg_or_inf (Num r) = (0 \<le> r)" "nonneg_or_inf PInf" "\<not> nonneg_or_inf NInf"
  "\<not> nonneg_or_inf NaN"
  by (simp_all add: nonneg_or_inf_def)

lemma nonneg_or_inf_cases:
  assumes "nonneg_or_inf x"
  obtains r where "x = Num r" "0 \<le> r" | "x = PInf"
  using assms by (cases x) simp_all

lemma toDouble_nonneg_or_inf: "0 \<le> x \<Longrightarrow> nonneg_or_inf (toDouble x)"
  using toDouble_nonneg [of x] by auto

lemma toDouble_between:
  assumes "0 \<le> lo" and "lo \<le> x" and "x \<le> hi"
    and "toDouble lo = Num lo'" and "toDouble hi = Num hi'"
  shows "\<exists>r. toDouble x = Num r \<and> lo' \<le> r \<and> r \<le> hi'"
proof -
  have x: "0 \<le> x" using assms(1,2) by simp
  have l: "jle (Num lo') (toDouble x)"
    using toDouble_mono [OF assms(1,2)] by (simp add: assms(4))
  have h: "jle (toDouble x) (Num hi')"
    using toDouble_mono [OF x assms(3)] by (simp add: assms(5))
  show ?thesis
    using l h by (cases "toDouble x") simp_all
qed

lemma toDouble_nat: "n < 2 ^ 53 \<Longrightarrow> toDouble (of_nat n) = Num (of_nat n)"
proof -
  assume "n < 2 ^ 53"
  then have "int n < 2 ^ 53" by (metis of_nat_less_iff of_nat_numeral of_nat_power)
  then have "toDouble (of_int (int n)) = Num (of_int (int n))"
    by (intro toDouble_int) simp_all
  then show ?thesis by simp
qed

lemma toDouble_weight:
  assumes "1 \<le> w" and "w \<le> 10"
  shows "\<exists>r. toDouble w = Num r \<and> 1 \<le> r \<and> r \<le> 10"
proof -
  have "toDouble 1 = Num 1" "toDouble 10 = Num 10"
    by (simp_all add: toDouble_eval)
  with toDouble_between [of 1 w 10 1 10] assms show ?thesis by simp
qed

lemma fp_sum_bounds:
  assumes "\<forall>w\<in>set ws. 1 \<le> w \<and> w \<le> 10"
    and "of_nat k \<le> t" and "t \<le> 10 * of_nat k" and "k + length ws < 2 ^ 32"
  shows "\<exists>t'. fp_sum (Num t) ws = Num t'
           \<and> of_nat (k + length ws) \<le> t' \<and> t' \<le> 10 * of_nat (k + length ws)"
  using assms
proof (induction ws arbitrary: t k)
  case Nil
  then show ?case by (simp add: fp_sum_def)
next
  case (Cons w ws)
  from Cons.prems(1) obtain r where r: "toDouble w = Num r" "1 \<le> r" "r \<le> 10"
    using toDouble_weight [of w] by auto
  have k: "Suc k < 2 ^ 32" using Cons.prems(4) by simp
  have lo: "toDouble (of_nat (Suc k)) = Num (of_nat (Suc k))"
    using k by (intro toDouble_nat) simp
  have "10 * Suc k < 10 * 2 ^ 32" using k by simp
  also have "(10::nat) * 2 ^ 32 < 2 ^ 53" by simp
  finally have "10 * Suc k < 2 ^ 53" .
  then have "toDouble (of_nat (10 * Suc k)) = Num (of_nat (10 * Suc k))"
    by (rule toDouble_nat)
  then have hi: "toDouble (10 * of_nat (Suc k)) = Num (10 * of_nat (Suc k))"
    by simp
  have "\<exists>s. toDouble (t + r) = Num s \<and> of_nat (Suc k) \<le> s \<and> s \<le> 10 * of_nat (Suc k)"
    using Cons.prems(2,3) r(2,3) by (intro toDouble_between [OF _ _ _ lo hi]) simp_all
  then obtain s where s: "toDouble (t + r) = Num s" "of_nat (Suc k) \<le> s"
    "s \<le> 10 * of_nat (Suc k)" by blast
  have step: "fp_sum (Num t) (w # ws) = fp_sum (Num s) ws"
    by (simp add: fp_sum_def r(1) s(1))
  have "\<exists>t'. fp_sum (Num s) ws = Num t'
           \<and> of_nat (Suc k + length ws) \<le> t' \<and> t' \<le> 10 * of_nat (Suc k + length ws)"
    using Cons.prems(1,4) s(2,3) by (intro Cons.IH) simp_all
  then show ?case
    unfolding step by simp
qed

lemma fp_averageWeight_bounds:
  assumes "cs \<noteq> []" and "length cs < 2 ^ 32"
    and "\<forall>c\<in>set cs. 1 \<le> weight c \<and> weight c \<le> 10"
  shows "\<exists>r. fp_averageWeight cs = Num r \<and> 1 \<le> r \<and> r \<le> 10"
proof -
  let ?n = "of_nat (length cs) :: rat"
  have n: "0 < ?n" using assms(1) by simp
  have "\<exists>t'. fp_sum (Num 0) (map weight cs) = Num t'
           \<and> of_nat (0 + length (map weight cs)) \<le> t'
           \<and> t' \<le> 10 * of_nat (0 + length (map weight cs))"
    using assms(2,3) by (intro fp_sum_bounds) simp_all
  then obtain t where t: "fp_sum (Num 0) (map weight cs) = Num t" "?n \<le> t" "t \<le> 10 * ?n"
    by auto
  have one: "toDouble 1 = Num 1" and ten: "toDouble 10 = Num 10"
    by (simp_all add: toDouble_eval)
  have "1 \<le> t / ?n" "t / ?n \<le> 10"
    using t(2,3) n by (simp_all add: field_simps)
  then have "\<exists>r. toDouble (t / ?n) = Num r \<and> 1 \<le> r \<and> r \<le> 10"
    by (intro toDouble_between [OF _ _ _ one ten]) simp_all
  then show ?thesis
    using n by (simp add: fp_averageWeight_def t(1))
qed

lemma tenth: "toDouble (1 / 10) = Num (3602879701896397 / 2 ^ 55)"
  by (simp add: toDouble_eval)

lemma jdiv_ten_bounds:
  assumes "1 \<le> r" and "r \<le> 10"
  shows "\<exists>a. jdiv (Num r) (Num 10) = Num a \<and> 0 < a \<and> a \<le> 1"
proof -
  have one: "toDouble 1 = Num 1" by (simp add: toDouble_eval)
  have "1 / 10 \<le> r / 10" "r / 10 \<le> 1" using assms by simp_all
  then have "\<exists>a. toDouble (r / 10) = Num a \<and> 3602879701896397 / 2 ^ 55 \<le> a \<and> a \<le> 1"
    by (intro toDouble_between [OF _ _ _ tenth one]) simp_all
  then obtain a where a: "toDouble (r / 10) = Num a" "3602879701896397 / 2 ^ 55 \<le> a" "a \<le> 1"
    by blast
  have "(0::rat) < 3602879701896397 / 2 ^ 55" by simp
  with a(2) have "0 < a" by linarith
  with a show ?thesis by simp
qed

lemma fp_relevanceModifier_le_two:
  assumes "\<forall>c\<in>set cs. 1 \<le> weight c \<and> weight c \<le> 10"
  shows "\<exists>m. fp_relevanceModifier cs = Num m \<and> 0 < m \<and> m \<le> 2"
proof (cases "filter (\<lambda>c. category c = ''Personal Relevance'') cs")
  case Nil
  then show ?thesis by (simp add: fp_relevanceModifier_def)
next
  case (Cons p ps)
  define q where "q = last (p # ps)"
  have "q \<in> set (filter (\<lambda>c. category c = ''Personal Relevance'') cs)"
    unfolding Cons q_def by (rule last_in_set) simp
  then have "q \<in> set cs" by simp
  with assms have w: "1 \<le> weight q" "weight q \<le> 10"
    by auto
  from toDouble_weight [OF w] obtain r where r: "toDouble (weight q) = Num r"
    "1 \<le> r" "r \<le> 10" by blast
  from jdiv_ten_bounds [OF r(2,3)] obtain u where u: "jdiv (Num r) (Num 10) = Num u"
    "0 < u" "u \<le> 1" by blast
  have one: "toDouble 1 = Num 1" and two: "toDouble 2 = Num 2"
    by (simp_all add: toDouble_eval)
  have "\<exists>m. toDouble (1 + u) = Num m \<and> 1 \<le> m \<and> m \<le> 2"
    using u(2,3) by (intro toDouble_between [OF _ _ _ one two]) simp_all
  then obtain m where m: "toDouble (1 + u) = Num m" "1 \<le> m" "m \<le> 2" by blast
  have "fp_relevanceModifier cs = jadd (Num 1) (jdiv (toDouble (weight q)) (Num 10))"
    by (simp add: fp_relevanceModifier_def Cons q_def del: jadd.simps jdiv.simps)
  also have "\<dots> = Num m"
    by (simp only: r(1) u(1) jadd.simps m(1))
  finally show ?thesis using m(2,3) by auto
qed

lemma jmul_const_nonneg:
  assumes "0 < c" and "nonneg_or_inf x"
  shows "nonneg_or_inf (jmul x (Num c))"
  using assms(2)
proof (cases rule: nonneg_or_inf_cases)
  case (1 r)
  then show ?thesis using assms(1) by (simp add: toDouble_nonneg_or_inf)
next
  case 2
  then show ?thesis using assms(1) by simp
qed

lemma jmul_const_mono:
  assumes "0 < c" and "nonneg_or_inf x" and "nonneg_or_inf y" and "jle x y"
  shows "jle (jmul x (Num c)) (jmul y (Num c))"
  using assms(2)
proof (cases rule: nonneg_or_inf_cases)
  case x: (1 r)
  from assms(3) show ?thesis
  proof (cases rule: nonneg_or_inf_cases)
    case (1 s)
    with x assms(1,4) have "0 \<le> r * c" "r * c \<le> s * c" by simp_all
    then show ?thesis
      using x 1 by (simp add: toDouble_mono)
  next
    case 2
    have "nonneg_or_inf (toDouble (r * c))"
      using x(2) assms(1) by (intro toDouble_nonneg_or_inf) simp
    then show ?thesis
      using x 2 assms(1) by (cases "toDouble (r * c)") simp_all
  qed
next
  case 2
  with assms(3,4) have "y = PInf" by (cases y) simp_all
  with 2 assms(1) show ?thesis by simp
qed

lemma jdiv_const_nonneg:
  assumes "0 < c" and "nonneg_or_inf x"
  shows "nonneg_or_inf (jdiv x (Num c))"
  using assms(2)
proof (cases rule: nonneg_or_inf_cases)
  case (1 r)
  then show ?thesis using assms(1) by (simp add: toDouble_nonneg_or_inf)
next
  case 2
  then show ?thesis using assms(1) by simp
qed

lemma jdiv_const_mono:
  assumes "0 < c" and "nonneg_or_inf x" and "nonneg_or_inf y" and "jle x y"
  shows "jle (jdiv x (Num c)) (jdiv y (Num c))"
  using assms(2)
proof (cases rule: nonneg_or_inf_cases)
  case x: (1 r)
  from assms(3) show ?thesis
  proof (cases rule: nonneg_or_inf_cases)
    case (1 s)
    with x assms(1,4) have "0 \<le> r / c" "r / c \<le> s / c" by (simp_all add: divide_right_mono)
    then show ?thesis
      using x 1 assms(1) by (simp add: toDouble_mono)
  next
    case 2
    have "nonneg_or_inf (toDouble (r / c))"
      using x(2) assms(1) by (intro toDouble_nonneg_or_inf) simp
    then show ?thesis
      using x 2 assms(1) by (cases "toDouble (r / c)") simp_all
  qed
next
  case 2
  with assms(3,4) have "y = PInf" by (cases y) simp_all
  with 2 assms(1) show ?thesis by simp
qed

lemma jmul_commute: "jmul x y = jmul y x"
  by (cases x; cases y) (simp_all add: mult.commute)

lemma jround_nonneg:
  assumes "nonneg_or_inf x"
  shows "jround x = PInf \<or> (\<exists>n\<ge>0. jround x = Num (of_int n))"
  using assms
proof (cases rule: nonneg_or_inf_cases)
  case (1 r)
  then have "0 \<le> \<lfloor>r + 1 / 2\<rfloor>" by simp
  with 1 show ?thesis by auto
next
  case 2
  then show ?thesis by simp
qed

lemma jround_mono:
  assumes "nonneg_or_inf x" and "nonneg_or_inf y" and "jle x y"
  shows "jle (jround x) (jround y)"
  using assms by (cases x; cases y) (simp_all add: floor_mono)

lemma fp_totalHours_shape:
  assumes "cs \<noteq> []" and "length cs < 2 ^ 32"
    and "\<forall>c\<in>set cs. 1 \<le> weight c \<and> weight c \<le> 10"
  shows "\<exists>a m. 0 < a \<and> 0 < m \<and>
           (\<forall>x. fp_totalHours cs x =
                  jround (jmul (jmul (jdiv (jmul x (Num 24)) (Num 5)) (Num a)) (Num m)))"
proof -
  from fp_averageWeight_bounds [OF assms] obtain r where r: "fp_averageWeight cs = Num r"
    "1 \<le> r" "r \<le> 10" by blast
  from jdiv_ten_bounds [OF r(2,3)] obtain a where a: "jdiv (Num r) (Num 10) = Num a" "0 < a"
    by blast
  from fp_relevanceModifier_le_two [OF assms(3)] obtain m where
    m: "fp_relevanceModifier cs = Num m" "0 < m" by blast
  have "fp_totalHours cs x =
          jround (jmul (jmul (jdiv (jmul x (Num 24)) (Num 5)) (Num a)) (Num m))" for x
    unfolding fp_totalHours_def r(1) a(1) m(1)
    by (simp only: jmul_commute [of "Num a"])
  with a(2) m(2) show ?thesis by blast
qed

lemma fp_totalHours_nonneg:
  assumes "cs \<noteq> []" and "length cs < 2 ^ 32"
    and "\<forall>c\<in>set cs. 1 \<le> weight c \<and> weight c \<le> 10" and "nonneg_or_inf x"
  shows "fp_totalHours cs x = PInf \<or> (\<exists>n\<ge>0. fp_totalHours cs x = Num (of_int n))"
proof -
  from fp_totalHours_shape [OF assms(1,2,3)] obtain a m where am: "0 < a" "0 < m"
    and eq: "\<And>x. fp_totalHours cs x =
                  jround (jmul (jmul (jdiv (jmul x (Num 24)) (Num 5)) (Num a)) (Num m))"
    by blast
  have "nonneg_or_inf (jmul (jmul (jdiv (jmul x (Num 24)) (Num 5)) (Num a)) (Num m))"
    using assms(4) am
    by (intro jmul_const_nonneg jdiv_const_nonneg) simp_all
  then show ?thesis
    unfolding eq by (rule jround_nonneg)
qed

lemma fp_totalHours_mono:
  assumes "cs \<noteq> []" and "length cs < 2 ^ 32"
    and "\<forall>c\<in>set cs. 1 \<le> weight c \<and> weight c \<le> 10"
    and "nonneg_or_inf x" and "nonneg_or_inf y" and "jle x y"
  shows "jle (fp_totalHours cs x) (fp_totalHours cs y)"
proof -
  from fp_totalHours_shape [OF assms(1,2,3)] obtain a m where am: "0 < a" "0 < m"
    and eq: "\<And>x. fp_totalHours cs x =
                  jround (jmul (jmul (jdiv (jmul x (Num 24)) (Num 5)) (Num a)) (Num m))"
    by blast
  have t: "(0::rat) < 24" "(0::rat) < 5" by simp_all
  note nn = jmul_const_nonneg jdiv_const_nonneg
  have 1: "jle (jmul x (Num 24)) (jmul y (Num 24))"
    using t(1) assms(4,5,6) by (rule jmul_const_mono)
  have 2: "jle (jdiv (jmul x (Num 24)) (Num 5)) (jdiv (jmul y (Num 24)) (Num 5))"
    using t(2) _ _ 1 by (rule jdiv_const_mono) (intro nn assms t)+
  have 3: "jle (jmul (jdiv (jmul x (Num 24)) (Num 5)) (Num a))
               (jmul (jdiv (jmul y (Num 24)) (Num 5)) (Num a))"
    using am(1) _ _ 2 by (rule jmul_const_mono) (intro nn assms t)+
  have 4: "jle (jmul (jmul (jdiv (jmul x (Num 24)) (Num 5)) (Num a)) (Num m))
               (jmul (jmul (jdiv (jmul y (Num 24)) (Num 5)) (Num a)) (Num m))"
    using am(2) _ _ 3 by (rule jmul_const_mono) (intro nn assms t am)+
  show ?thesis
    unfolding eq using _ _ 4 by (rule jround_mono) (intro nn assms t am)+
qed

lemma pow2_1000: "toDouble (2 ^ 1000) = Num (2 ^ 1000)"
  by (simp add: toDouble_eval)

lemma pow2_1005: "toDouble (2 ^ 1005) = Num (2 ^ 1005)"
  by (simp add: toDouble_eval)

lemma pow2_1006: "toDouble (2 ^ 1006) = Num (2 ^ 1006)"
  by (simp add: toDouble_eval)

lemma overflow_days: "jmul (toDouble (2 ^ 1023)) (Num 24) = PInf"
  by (simp add: toDouble_eval)

lemma fp_totalHours_finite:
  assumes "cs \<noteq> []" and "length cs < 2 ^ 32"
    and "\<forall>c\<in>set cs. 1 \<le> weight c \<and> weight c \<le> 10"
    and "0 \<le> d" and "d \<le> 2 ^ 1000"
  shows "\<exists>n\<ge>0. fp_totalHours cs (toDouble d) = Num (of_int n)"
proof -
  from fp_averageWeight_bounds [OF assms(1,2,3)] obtain r where r: "fp_averageWeight cs = Num r"
    "1 \<le> r" "r \<le> 10" by blast
  from jdiv_ten_bounds [OF r(2,3)] obtain a where a: "jdiv (Num r) (Num 10) = Num a" "0 < a"
    "a \<le> 1" by blast
  from fp_relevanceModifier_le_two [OF assms(3)] obtain m where
    m: "fp_relevanceModifier cs = Num m" "0 < m" "m \<le> 2" by blast
  have zero: "toDouble 0 = Num 0" by simp
  have "\<exists>x. toDouble d = Num x \<and> 0 \<le> x \<and> x \<le> 2 ^ 1000"
    using assms(4,5) by (intro toDouble_between [OF _ _ _ zero pow2_1000]) simp_all
  then obtain x where x: "toDouble d = Num x" "0 \<le> x" "x \<le> 2 ^ 1000" by blast
  have "x * 24 \<le> 2 ^ 1000 * 2 ^ 5"
    using x(2,3) by (intro mult_mono) simp_all
  then have "x * 24 \<le> 2 ^ 1005" by (simp only: power_add [symmetric]) simp
  then have "\<exists>y. toDouble (x * 24) = Num y \<and> 0 \<le> y \<and> y \<le> 2 ^ 1005"
    using x(2) by (intro toDouble_between [OF _ _ _ zero pow2_1005]) simp_all
  then obtain y where y: "toDouble (x * 24) = Num y" "0 \<le> y" "y \<le> 2 ^ 1005" by blast
  have "y / 5 \<le> y" using y(2) by simp
  then have "y / 5 \<le> 2 ^ 1005" using y(3) by (rule order_trans)
  then have "\<exists>z. toDouble (y / 5) = Num z \<and> 0 \<le> z \<and> z \<le> 2 ^ 1005"
    using y(2) by (intro toDouble_between [OF _ _ _ zero pow2_1005]) simp_all
  then obtain z where z: "toDouble (y / 5) = Num z" "0 \<le> z" "z \<le> 2 ^ 1005" by blast
  have "a * z \<le> 1 * 2 ^ 1005"
    using a(2,3) z(2,3) by (intro mult_mono) simp_all
  then have "\<exists>u. toDouble (a * z) = Num u \<and> 0 \<le> u \<and> u \<le> 2 ^ 1005"
    using a(2) z(2) by (intro toDouble_between [OF _ _ _ zero pow2_1005]) simp_all
  then obtain u where u: "toDouble (a * z) = Num u" "0 \<le> u" "u \<le> 2 ^ 1005" by blast
  have "u * m \<le> 2 ^ 1005 * 2 ^ 1"
    using u(2,3) m(2,3) by (intro mult_mono) simp_all
  then have "u * m \<le> 2 ^ 1006" by (simp only: power_add [symmetric]) simp
  then have "\<exists>v. toDouble (u * m) = Num v \<and> 0 \<le> v \<and> v \<le> 2 ^ 1006"
    using u(2) m(2) by (intro toDouble_between [OF _ _ _ zero pow2_1006]) simp_all
  then obtain v where v: "toDouble (u * m) = Num v" "0 \<le> v" by blast
  have 1: "jmul (Num x) (Num 24) = Num y" using y(1) by simp
  have 2: "jdiv (Num y) (Num 5) = Num z" using z(1) by simp
  have 3: "jmul (Num a) (Num z) = Num u" using u(1) by simp
  have 4: "jmul (Num u) (Num m) = Num v" using v(1) by simp
  have "fp_totalHours cs (toDouble d) = jround (Num v)"
    unfolding fp_totalHours_def r(1) a(1) m(1) x(1) 1 2 3 4 ..
  moreover have "0 \<le> \<lfloor>v + 1 / 2\<rfloor>" using v(2) by simp
  ultimately show ?thesis by auto
qed

text \<open>
  C2, as the code has it. The aggregator returns totalHours = round((averageWeight / 10)
  * ((daysPerYear * 24) / 5) * relevanceModifier) with every number a binary64 double and
  every operation rounded to the nearest double: averageWeight is the sum of all weights
  (the one of Personal Relevance included), accumulated from the left, divided by the
  number of categories, and relevanceModifier is 1 + w / 10 for the weight w of the last
  Personal Relevance category and 1 without one; round is Math.round. The two worked
  examples of the specification give 29 and 41.
\<close>

theorem totalHours_binary64:
  "totalHours (calculateWeightsAndHours e cs dv) =
     jround (jmul (jmul (jdiv (fp_averageWeight cs) (Num 10))
                        (jdiv (jmul (toNumber e dv) (Num 24)) (Num 5)))
                  (fp_relevanceModifier cs))
   \<and> totalHours (calculateWeightsAndHours e
        [demoCategory ''Statistical Impact'' 8, demoCategory ''Social Relevance'' 6,
         demoCategory ''Policy Impact Potential'' 4] (JNum 10)) = Num 29
   \<and> totalHours (calculateWeightsAndHours e
        [demoCategory ''Statistical Impact'' 8, demoCategory ''Social Relevance'' 6,
         demoCategory ''Policy Impact Potential'' 4, demoCategory ''Personal Relevance'' 5]
        (JNum 10)) = Num 41"
proof (intro conjI)
  show "totalHours (calculateWeightsAndHours e cs dv) =
     jround (jmul (jmul (jdiv (fp_averageWeight cs) (Num 10))
                        (jdiv (jmul (toNumber e dv) (Num 24)) (Num 5)))
                  (fp_relevanceModifier cs))"
    by (simp only: totalHours_fp fp_totalHours_def)
qed (rule example_three_categories, rule example_four_categories)

text \<open>
  The total is not always the rounding of the exact value of the formula: for the weights
  8, 6, 4 and 5 (Personal Relevance) and 75 days the exact product is 310.5, which rounds
  to 311, while the doubles give 310.49999999999994 and the aggregator returns 310.
\<close>

theorem totalHours_rounding_counterexample:
  "totalHours (calculateWeightsAndHours demoEnv
      [demoCategory ''Statistical Impact'' 8, demoCategory ''Social Relevance'' 6,
       demoCategory ''Policy Impact Potential'' 4, demoCategory ''Personal Relevance'' 5]
      (JNum 75)) = Num 310
   \<and> spec_round ((spec_averageWeight
        [demoCategory ''Statistical Impact'' 8, demoCategory ''Social Relevance'' 6,
         demoCategory ''Policy Impact Potential'' 4, demoCategory ''Personal Relevance'' 5] / 10)
        * ((75 * 24) / 5)
        * spec_relevanceModifier
        [demoCategory ''Statistical Impact'' 8, demoCategory ''Social Relevance'' 6,
         demoCategory ''Policy Impact Potential'' 4, demoCategory ''Personal Relevance'' 5])
     = 311"
  using example_75_days [of demoEnv] exact_75_days
  by (simp only: spec_totalHours_def)

text \<open>
  C6, as the code has it. For a non-empty category sequence (of fewer than 2^32
  categories, the bound of a JavaScript array) with weights in [1,10] and numbers
  0 < d \<le> d' as daysPerYear, totalHours is an integer that is not negative or it is
  Infinity; it is an integer that is not negative when d is at most 10^300; and the
  total for d is at most the total for d'.
\<close>

theorem totalHours_nonneg_mono:
  assumes "cs \<noteq> []" and "length cs < 2 ^ 32"
    and "\<forall>c\<in>set cs. 1 \<le> weight c \<and> weight c \<le> 10"
    and "0 < d" and "d \<le> d'"
  shows "(totalHours (calculateWeightsAndHours e cs (JNum d)) = PInf
            \<or> (\<exists>n\<ge>0. totalHours (calculateWeightsAndHours e cs (JNum d)) = Num (of_int n)))
       \<and> (d \<le> 10 ^ 300 \<longrightarrow>
            (\<exists>n\<ge>0. totalHours (calculateWeightsAndHours e cs (JNum d)) = Num (of_int n)))
       \<and> jle (totalHours (calculateWeightsAndHours e cs (JNum d)))
              (totalHours (calculateWeightsAndHours e cs (JNum d')))"
proof (intro conjI impI)
  have d: "0 \<le> d" "0 \<le> d'" using assms(4,5) by simp_all
  show "totalHours (calculateWeightsAndHours e cs (JNum d)) = PInf
            \<or> (\<exists>n\<ge>0. totalHours (calculateWeightsAndHours e cs (JNum d)) = Num (of_int n))"
    unfolding totalHours_fp toNumber.simps
    using assms(1,2,3) toDouble_nonneg_or_inf [OF d(1)] by (rule fp_totalHours_nonneg)
  show "jle (totalHours (calculateWeightsAndHours e cs (JNum d)))
              (totalHours (calculateWeightsAndHours e cs (JNum d')))"
    unfolding totalHours_fp toNumber.simps
    using assms(1,2,3) toDouble_nonneg_or_inf [OF d(1)] toDouble_nonneg_or_inf [OF d(2)]
      toDouble_mono [OF d(1) assms(5)]
    by (rule fp_totalHours_mono)
next
  assume "d \<le> 10 ^ 300"
  also have "(10::rat) ^ 300 \<le> 2 ^ 1000" by simp
  finally have "d \<le> 2 ^ 1000" .
  with assms show "\<exists>n\<ge>0. totalHours (calculateWeightsAndHours e cs (JNum d)) = Num (of_int n)"
    unfolding totalHours_fp toNumber.simps
    by (intro fp_totalHours_finite) simp_all
qed

theorem totalHours_nonneg_mono_witness:
  "totalHours (calculateWeightsAndHours demoEnv
      [demoCategory ''Statistical Impact'' 8, demoCategory ''Social Relevance'' 6,
       demoCategory ''Policy Impact Potential'' 4, demoCategory ''Personal Relevance'' 5]
      (JNum 10)) = Num 41
   \<and> totalHours (calculateWeightsAndHours demoEnv
      [demoCategory ''Statistical Impact'' 8, demoCategory ''Social Relevance'' 6,
       demoCategory ''Policy Impact Potential'' 4, demoCategory ''Personal Relevance'' 5]
      (JNum 75)) = Num 310
   \<and> jle (Num 41) (Num 310)"
proof -
  let ?cs = "[demoCategory ''Statistical Impact'' 8, demoCategory ''Social Relevance'' 6,
       demoCategory ''Policy Impact Potential'' 4, demoCategory ''Personal Relevance'' 5]"
  have "jle (totalHours (calculateWeightsAndHours demoEnv ?cs (JNum 10)))
            (totalHours (calculateWeightsAndHours demoEnv ?cs (JNum 75)))"
    using totalHours_nonneg_mono [of ?cs 10 75 demoEnv]
    by (simp add: demoCategory_def)
  then show ?thesis
    by (simp only: example_four_categories example_75_days)
qed

text \<open>
  For the empty category sequence the total is NaN, and for a daysPerYear of 2^1023 the
  product daysPerYear * 24 overflows and the total is Infinity: neither is an integer.
\<close>

theorem totalHours_not_integer_counterexample:
  "totalHours (calculateWeightsAndHours demoEnv ([] :: string category list) (JNum 10)) = NaN
   \<and> totalHours (calculateWeightsAndHours demoEnv
        [demoCategory ''Statistical Impact'' 8, demoCategory ''Social Relevance'' 6]
        (JNum (2 ^ 1023))) = PInf"
proof
  show "totalHours (calculateWeightsAndHours demoEnv ([] :: string category list) (JNum 10)) = NaN"
    by (simp add: totalHours_fp fp_totalHours_def fp_averageWeight_def fp_sum_def)
  have avg: "fp_averageWeight
      [demoCategory ''Statistical Impact'' 8, demoCategory ''Social Relevance'' 6] = Num 7"
    by (simp add: fp_averageWeight_def fp_sum_def demoCategory_def toDouble_eval)
  have rm: "fp_relevanceModifier
      [demoCategory ''Statistical Impact'' 8, demoCategory ''Social Relevance'' 6] = Num 1"
    by (simp add: fp_relevanceModifier_def demoCategory_def)
  have a: "jdiv (Num 7) (Num 10) = Num (3152519739159347 / 2 ^ 52)"
    by (simp add: toDouble_eval)
  show "totalHours (calculateWeightsAndHours demoEnv
        [demoCategory ''Statistical Impact'' 8, demoCategory ''Social Relevance'' 6]
        (JNum (2 ^ 1023))) = PInf"
    unfolding totalHours_fp fp_totalHours_def avg rm toNumber.simps overflow_days a
    by simp
qed

section \<open>Promise.all resolves with the values of its tasks\<close>

lemma those_map_Some: "those (map Some xs) = Some xs"
  by (induction xs) simp_all

lemma fold_settle_length:
  "length (fold (\<lambda>i slots. slots[i := Some (tasks ! i)]) order slots) = length slots"
  by (induction order arbitrary: slots) simp_all

lemma fold_settle_nth:
  "k < length slots \<Longrightarrow>
   fold (\<lambda>i slots. slots[i := Some (tasks ! i)]) order slots ! k =
     (if k \<in> set order then Some (tasks ! k) else slots ! k)"
proof (induction order arbitrary: slots)
  case Nil
  then show ?case by simp
next
  case (Cons i order)
  then show ?case
    by (cases "k = i") simp_all
qed

lemma set_completionOrder: "set (completionOrder latency n) = {0..<n}"
  by (simp add: completionOrder_def)

lemma promiseAll_resolves: "promiseAll latency tasks = Some tasks"
proof -
  let ?slots = "fold (\<lambda>i slots. slots[i := Some (tasks ! i)])
                  (completionOrder latency (length tasks)) (replicate (length tasks) None)"
  have "?slots = map Some tasks"
    by (rule nth_equalityI)
      (simp_all add: fold_settle_length fold_settle_nth set_completionOrder)
  then show ?thesis
    by (simp add: promiseAll_def those_map_Some)
qed

lemma enhanceFacts_resolves: "enhanceFacts e latency yr fs = Some (resolveFacts e yr fs)"
  by (simp add: enhanceFacts_def resolveFacts_def promiseAll_resolves)

lemma map_enumerate_snd: "map (\<lambda>(i, c). g c) (enumerate n xs) = map g xs"
  by (induction xs arbitrary: n) simp_all

lemma enhanceData_resolves: "enhanceData e sch yr data = Some (resolved e yr data)"
proof -
  have "map (\<lambda>(i, c). map_option (withFacts c)
               (enhanceFacts e (factLatency sch i) yr (facts c))) (enumerate 0 data)
        = map (\<lambda>(i, c). Some (withFacts c (resolveFacts e yr (facts c)))) (enumerate 0 data)"
    by (simp add: enhanceFacts_resolves)
  also have "\<dots> = map Some (resolved e yr data)"
    by (simp add: map_enumerate_snd resolved_def)
  finally show ?thesis
    by (simp add: enhanceData_def those_map_Some promiseAll_resolves)
qed

section \<open>The citation pass and the write-back\<close>

lemma has_link_citation [simp]: "has_link (s\<lparr>citation := c\<rparr>) = has_link s"
  by (simp add: has_link_def)

lemma update_fresh: "k \<notin> fst ` set m \<Longrightarrow> AList.update k v m = m @ [(k, v)]"
  by (induction m) auto

lemma upt_head: "[n..<Suc (n + k)] = n # [Suc n..<Suc n + k]"
  using upt_conv_Cons [of n "Suc (n + k)"] by simp

lemma citePass_counter:
  "fst (snd (citePass ss n m)) = n + length (filter has_link ss)"
  by (induction ss arbitrary: n m) (simp_all add: Let_def split_beta)

lemma citePass_length: "length (fst (citePass ss n m)) = length ss"
  by (induction ss arbitrary: n m) (simp_all add: Let_def split_beta)

lemma citePass_nth:
  "i < length ss \<Longrightarrow>
   fst (citePass ss n m) ! i =
     (if has_link (ss ! i)
      then (ss ! i)\<lparr>citation := Some (label (n + length (filter has_link (take i ss))))\<rparr>
      else ss ! i)"
proof (induction ss arbitrary: n m i)
  case Nil
  then show ?case by simp
next
  case (Cons s ss)
  show ?case
  proof (cases i)
    case 0
    then show ?thesis by (simp add: Let_def split_beta)
  next
    case (Suc j)
    with Cons.prems have j: "j < length ss" by simp
    show ?thesis
      using Cons.IH [OF j] Suc
      by (simp add: Let_def split_beta)
  qed
qed

lemma citePass_has_link:
  "filter has_link (fst (citePass ss n m)) =
   map (\<lambda>(k, s). s\<lparr>citation := Some (label k)\<rparr>)
     (zip [n..<n + length (filter has_link ss)] (filter has_link ss))"
proof (induction ss arbitrary: n m)
  case Nil
  then show ?case by simp
next
  case (Cons s ss)
  show ?case
  proof (cases "has_link s")
    case True
    with Cons.IH [of "Suc n"] show ?thesis
      by (simp add: Let_def split_beta upt_head del: upt_Suc)
  next
    case False
    with Cons.IH [of n] show ?thesis
      by (simp add: Let_def split_beta)
  qed
qed

lemma citePass_map:
  "\<forall>k\<in>fst ` set m. k < n \<Longrightarrow>
   snd (snd (citePass ss n m)) =
     m @ zip [n..<n + length (filter has_link ss)] (filter has_link (fst (citePass ss n m)))"
proof (induction ss arbitrary: n m)
  case Nil
  then show ?case by simp
next
  case (Cons s ss)
  show ?case
  proof (cases "has_link s")
    case True
    let ?s' = "s\<lparr>citation := Some (label n)\<rparr>"
    have fresh: "n \<notin> fst ` set m"
      using Cons.prems by auto
    have upd: "AList.update n ?s' m = m @ [(n, ?s')]"
      using fresh by (rule update_fresh)
    have inv: "\<forall>k\<in>fst ` set (m @ [(n, ?s')]). k < Suc n"
      using Cons.prems by auto
    show ?thesis
      using True Cons.IH [OF inv] upd
      by (simp add: Let_def split_beta upt_head del: upt_Suc)
  next
    case False
    with Cons.IH [OF Cons.prems] show ?thesis
      by (simp add: Let_def split_beta)
  qed
qed

lemma citePass_preserves:
  assumes "\<And>s c. g (s\<lparr>citation := c\<rparr>) = g s"
  shows "map g (fst (citePass ss n m)) = map g ss"
  by (induction ss arbitrary: n m) (simp_all add: assms Let_def split_beta)

lemma refillFacts_rest:
  "snd (refillFacts fs ss) = drop (length (flatFacts fs)) ss"
  by (induction fs arbitrary: ss) (simp_all add: flatFacts_def Let_def split_beta add.commute)

lemma refillFacts_text:
  "map fact_text (fst (refillFacts fs ss)) = map fact_text fs"
  by (induction fs arbitrary: ss) (simp_all add: Let_def split_beta)

lemma refillFacts_sources:
  "map g ss = map g (flatFacts fs) @ r \<Longrightarrow>
   map (\<lambda>f. map g (sources f)) (fst (refillFacts fs ss)) = map (\<lambda>f. map g (sources f)) fs"
proof (induction fs arbitrary: ss)
  case Nil
  then show ?case by simp
next
  case (Cons f fs)
  let ?k = "length (sources f)"
  from Cons.prems have eq: "map g ss = map g (sources f) @ (map g (flatFacts fs) @ r)"
    by (simp add: flatFacts_def)
  have "map g (take ?k ss) = take ?k (map g ss)"
    by (simp add: take_map)
  also have "\<dots> = map g (sources f)"
    by (simp add: eq)
  finally have hd: "map g (take ?k ss) = map g (sources f)" .
  have "map g (drop ?k ss) = drop ?k (map g ss)"
    by (simp add: drop_map)
  also have "\<dots> = map g (flatFacts fs) @ r"
    by (simp add: eq)
  finally have tl: "map g (drop ?k ss) = map g (flatFacts fs) @ r" .
  show ?case
    using Cons.IH [OF tl] hd
    by (simp add: Let_def split_beta)
qed

lemma map_pair_eq:
  "map f xs = map f ys \<Longrightarrow> map h xs = map h ys \<Longrightarrow>
   map (\<lambda>x. (f x, h x)) xs = map (\<lambda>x. (f x, h x)) ys"
proof (induction xs arbitrary: ys)
  case Nil
  then show ?case by simp
next
  case (Cons x xs)
  then obtain y ys' where ys: "ys = y # ys'"
    by (cases ys) auto
  with Cons.prems have "f x = f y" "h x = h y" "map f xs = map f ys'" "map h xs = map h ys'"
    by simp_all
  with Cons.IH [of ys'] ys show ?case
    by simp
qed

lemma flatSources_Cons: "flatSources (c # cs) = flatFacts (facts c) @ flatSources cs"
  by (simp add: flatSources_def flatFacts_def)

lemma refill_sources:
  "map g ss = map g (flatSources data) @ r \<Longrightarrow>
   map (\<lambda>c. map (\<lambda>f. (fact_text f, map g (sources f))) (facts c)) (refill data ss) =
   map (\<lambda>c. map (\<lambda>f. (fact_text f, map g (sources f))) (facts c)) data"
proof (induction data arbitrary: ss)
  case Nil
  then show ?case by simp
next
  case (Cons c cs)
  let ?k = "length (flatFacts (facts c))"
  from Cons.prems
  have eq: "map g ss = map g (flatFacts (facts c)) @ (map g (flatSources cs) @ r)"
    by (simp add: flatSources_Cons)
  have "map g (drop ?k ss) = drop ?k (map g ss)"
    by (simp add: drop_map)
  also have "\<dots> = map g (flatSources cs) @ r"
    by (simp add: eq)
  finally have tl: "map g (drop ?k ss) = map g (flatSources cs) @ r" .
  have texts: "map fact_text (fst (refillFacts (facts c) ss)) = map fact_text (facts c)"
    by (rule refillFacts_text)
  have srcs: "map (\<lambda>f. map g (sources f)) (fst (refillFacts (facts c) ss))
              = map (\<lambda>f. map g (sources f)) (facts c)"
    using eq by (rule refillFacts_sources)
  have pair: "map (\<lambda>f. (fact_text f, map g (sources f))) (fst (refillFacts (facts c) ss))
              = map (\<lambda>f. (fact_text f, map g (sources f))) (facts c)"
    using texts srcs by (rule map_pair_eq)
  show ?case
    using Cons.IH [OF tl] pair refillFacts_rest [of "facts c" ss]
    by (simp add: Let_def split_beta)
qed

lemma refill_frame:
  "map category (refill data ss) = map category data"
  "map weight (refill data ss) = map weight data"
  "map reasoning (refill data ss) = map reasoning data"
  by (induction data arbitrary: ss) (simp_all add: Let_def split_beta)

section \<open>The handler on a request that passes validation\<close>

lemma respond_eq: "respond e sch req data = Some (okResponse e req data)"
  by (simp add: respond_def enhanceData_resolves okResponse_def citedWeights_def Let_def
      split_beta)

lemma handler_ok:
  assumes "topicMissing (topic req) = Inr False"
    and "personalImpactContent e (personalImpact req) = Inr pic"
    and "generate e (categoriesText pic) (userContent e req pic) = Inr c"
    and "parsedData c = Inr data"
  shows "handler e sch req =
           (Some (okResponse e req data),
            LLMCall (categoriesText pic) (userContent e req pic)
              # searchCalls e (year req) (sortData data))"
  using assms by (simp add: handler_def respond_eq Let_def)

lemma trim_Nil_iff: "trim s = [] \<longleftrightarrow> list_all is_ws s"
proof
  assume "trim s = []"
  then have all: "\<forall>x\<in>set (dropWhile is_ws s). is_ws x"
    by (simp add: trim_def)
  have "dropWhile is_ws s = []"
  proof (rule ccontr)
    assume ne: "dropWhile is_ws s \<noteq> []"
    then have "\<not> is_ws (hd (dropWhile is_ws s))"
      by (rule hd_dropWhile)
    moreover have "hd (dropWhile is_ws s) \<in> set (dropWhile is_ws s)"
      using ne by simp
    ultimately show False
      using all by blast
  qed
  then show "list_all is_ws s"
    by (simp add: list_all_iff)
next
  assume "list_all is_ws s"
  then have d: "dropWhile is_ws s = []"
    by (simp add: list_all_iff)
  show "trim s = []"
    unfolding trim_def d by simp
qed

lemma topicMissing_string:
  "trim t \<noteq> [] \<Longrightarrow> topicMissing (JStr t) = Inr False"
  by (auto simp: topicMissing_def trim_def)

lemma handler_independent: "handler e sch req = handler e sch' req"
  by (simp add: handler_def respond_eq Let_def split: sum.splits bool.splits)

lemma handler_status:
  "fst (handler e sch req) = Some r \<Longrightarrow> status r = 400 \<Longrightarrow> topicMissing (topic req) = Inr True"
  by (auto simp: handler_def respond_eq Let_def failed_def okResponse_def
      split: sum.splits bool.splits)

section \<open>The display order of the categories\<close>

lemma sortData_key: "sortData data = sort_key displayKey data"
  by (simp add: sortData_def displayKey_def [abs_def])

lemma indexOf_sortOrder:
  "indexOf sortOrder ''Statistical Impact'' = 0"
  "indexOf sortOrder ''Social Relevance'' = 1"
  "indexOf sortOrder ''Policy Impact Potential'' = 2"
  "indexOf sortOrder ''Personal Relevance'' = 3"
  by (simp_all add: indexOf_def sortOrder_def)

lemma indexOf_inj: "inj_on (indexOf sortOrder) (set sortOrder)"
  by (simp add: inj_on_def indexOf_def sortOrder_def)

lemma sorted_sortOrder: "sorted (map (indexOf sortOrder) sortOrder)"
  by (simp add: indexOf_def sortOrder_def)

lemma distinct_sortOrder: "distinct sortOrder"
  by (simp add: sortOrder_def)

lemma mset_sortData: "mset (sortData data) = mset data"
  by (simp add: sortData_key)

lemma sorted_sortData: "sorted (map displayKey (sortData data))"
  by (simp add: sortData_key)

lemma canonical_names:
  assumes sub: "set (map category data) \<subseteq> set sortOrder"
    and dist: "distinct (map category data)"
  shows "map category (sortData data) =
           filter (\<lambda>n. n \<in> set (map category data)) sortOrder"
proof -
  let ?g = "indexOf sortOrder"
  let ?names = "map category (sortData data)"
  let ?canon = "filter (\<lambda>n. n \<in> set (map category data)) sortOrder"
  have names_mset: "mset ?names = mset (map category data)"
    by (simp add: mset_sortData)
  then have names_set: "set ?names = set (map category data)"
    by (rule mset_eq_setD)
  have names_dist: "distinct ?names"
    using names_mset dist by (metis mset_eq_imp_distinct_iff)
  have canon_set: "set ?canon = set (map category data)"
    using sub by auto
  have inj_names: "inj_on ?g (set ?names)"
    using indexOf_inj sub names_set by (metis inj_on_subset)
  have inj_canon: "inj_on ?g (set ?canon)"
    using indexOf_inj by (rule inj_on_subset) auto
  have "sorted (map ?g ?names)"
    using sorted_sortData [of data] by (simp add: displayKey_def [abs_def] o_def)
  moreover have "distinct (map ?g ?names)"
    by (rule iffD2 [OF distinct_map]) (use names_dist inj_names in blast)
  moreover have "sorted (map ?g ?canon)"
    using sorted_sortOrder by (rule sorted_filter)
  moreover have "distinct (map ?g ?canon)"
    using distinct_sortOrder inj_canon by (simp add: distinct_map)
  moreover have "set (map ?g ?names) = set (map ?g ?canon)"
    unfolding set_map [of ?g] names_set canon_set ..
  ultimately have "map ?g ?names = map ?g ?canon"
    by (rule sorted_distinct_set_unique)
  moreover have "inj_on ?g (set ?names \<union> set ?canon)"
    using inj_names names_set canon_set by simp
  ultimately show ?thesis
    by (rule map_inj_on)
qed

lemma filter_key_distinct:
  "distinct (map f xs) \<Longrightarrow> k \<in> set xs \<Longrightarrow> filter (\<lambda>x. f k = f x) xs = [k]"
proof (induction xs)
  case Nil
  then show ?case by simp
next
  case (Cons x xs)
  show ?case
  proof (cases "k = x")
    case True
    have "filter (\<lambda>y. f x = f y) xs = []"
      using Cons.prems(1) by (auto simp: filter_empty_conv)
    with True show ?thesis by simp
  next
    case False
    then have "k \<in> set xs" using Cons.prems(2) by simp
    moreover have "f k \<noteq> f x"
      using Cons.prems(1) \<open>k \<in> set xs\<close> by (metis distinct.simps(2) image_eqI list.simps(9) set_map)
    ultimately show ?thesis
      using Cons by simp
  qed
qed

lemma sortData_order_independent:
  assumes sub: "set (map category data) \<subseteq> set sortOrder"
    and dist: "distinct (map category data)"
    and perm: "mset data' = mset data"
  shows "sortData data' = sortData data"
proof -
  have key_inj: "inj_on (indexOf sortOrder) (set (map category data))"
    using indexOf_inj sub by (rule inj_on_subset)
  have keys: "distinct (map displayKey data)"
  proof -
    have "distinct (map (indexOf sortOrder) (map category data))"
      by (rule iffD2 [OF distinct_map]) (use dist key_inj in blast)
    then show ?thesis by (simp add: displayKey_def [abs_def] o_def)
  qed
  have keys': "distinct (map displayKey data')"
    using keys perm by (metis mset_eq_imp_distinct_iff mset_map)
  have keys_sorted: "distinct (map displayKey (sortData data))"
    using keys by (metis mset_eq_imp_distinct_iff mset_map mset_sortData)
  have "sort_key displayKey data' = sortData data"
  proof (rule properties_for_sort_key)
    show "mset (sortData data) = mset data'"
      by (simp add: mset_sortData perm)
    show "sorted (map displayKey (sortData data))"
      by (rule sorted_sortData)
    fix k assume k: "k \<in> set (sortData data)"
    then have k': "k \<in> set data'"
      using perm by (metis mset_eq_setD mset_sortData)
    show "filter (\<lambda>x. displayKey k = displayKey x) (sortData data)
          = filter (\<lambda>x. displayKey k = displayKey x) data'"
      using filter_key_distinct [OF keys_sorted k] filter_key_distinct [OF keys' k']
      by simp
  qed
  then show ?thesis
    by (simp add: sortData_key)
qed

lemma buckets_mset:
  "distinct ks \<Longrightarrow>
   mset (concat (map (\<lambda>k. filter (\<lambda>x. f x = k) xs) ks)) = mset (filter (\<lambda>x. f x \<in> set ks) xs)"
proof (induction ks)
  case Nil
  then show ?case by simp
next
  case (Cons k ks)
  have "mset (filter (\<lambda>x. f x = k) xs) + mset (filter (\<lambda>x. f x \<in> set ks) xs)
        = mset (filter (\<lambda>x. f x = k \<or> f x \<in> set ks) xs)"
    using Cons.prems by (induction xs) auto
  with Cons show ?case by simp
qed

lemma buckets_sorted:
  "sorted ks \<Longrightarrow> sorted (map f (concat (map (\<lambda>k. filter (\<lambda>x. f x = k) xs) ks)))"
proof (induction ks)
  case Nil
  then show ?case by simp
next
  case (Cons k ks)
  have "sorted (map f (filter (\<lambda>x. f x = k) xs))"
    by (induction xs) auto
  with Cons show ?case
    by (auto simp: sorted_append)
qed

lemma buckets_filter:
  "distinct ks \<Longrightarrow>
   filter (\<lambda>x. f x = j) (concat (map (\<lambda>k. filter (\<lambda>x. f x = k) xs) ks))
   = (if j \<in> set ks then filter (\<lambda>x. f x = j) xs else [])"
proof (induction ks)
  case Nil
  then show ?case by simp
next
  case (Cons k ks)
  have "filter (\<lambda>x. f x = j) (filter (\<lambda>x. f x = k) xs)
        = (if j = k then filter (\<lambda>x. f x = j) xs else [])"
    by (induction xs) auto
  with Cons show ?case by auto
qed

lemma sort_key_buckets:
  fixes f :: "'a \<Rightarrow> 'k::linorder"
  assumes "sorted ks" and "distinct ks" and "f ` set xs \<subseteq> set ks"
  shows "sort_key f xs = concat (map (\<lambda>k. filter (\<lambda>x. f x = k) xs) ks)"
proof (rule properties_for_sort_key)
  let ?ys = "concat (map (\<lambda>k. filter (\<lambda>x. f x = k) xs) ks)"
  have all: "filter (\<lambda>x. f x \<in> set ks) xs = xs"
    using assms(3) by (auto simp: filter_id_conv)
  show "mset ?ys = mset xs"
    using buckets_mset [OF assms(2), of f xs] by (simp only: all)
  show "sorted (map f ?ys)"
    using assms(1) by (rule buckets_sorted)
  fix k assume "k \<in> set ?ys"
  then have "k \<in> set xs" by auto
  then have "f k \<in> set ks" using assms(3) by auto
  then have "filter (\<lambda>x. f x = f k) ?ys = filter (\<lambda>x. f x = f k) xs"
    using buckets_filter [OF assms(2), of f "f k" xs] by simp
  then show "filter (\<lambda>x. f k = f x) ?ys = filter (\<lambda>x. f k = f x) xs"
    by (simp only: eq_commute [of "f k"])
qed

lemma indexOf_cases:
  "indexOf sortOrder n = - 1 \<longleftrightarrow> n \<notin> set sortOrder"
  "indexOf sortOrder n = 0 \<longleftrightarrow> n = ''Statistical Impact''"
  "indexOf sortOrder n = 1 \<longleftrightarrow> n = ''Social Relevance''"
  "indexOf sortOrder n = 2 \<longleftrightarrow> n = ''Policy Impact Potential''"
  "indexOf sortOrder n = 3 \<longleftrightarrow> n = ''Personal Relevance''"
  by (auto simp: indexOf_def sortOrder_def)

lemma indexOf_range: "indexOf sortOrder n \<in> set [- 1, 0, 1, 2, 3]"
  by (simp add: indexOf_def sortOrder_def)

lemma sortData_buckets:
  "sortData data =
     filter (\<lambda>c. category c \<notin> set sortOrder) data
     @ concat (map (\<lambda>n. filter (\<lambda>c. category c = n) data) sortOrder)"
proof -
  have "sort_key displayKey data
        = concat (map (\<lambda>k. filter (\<lambda>c. displayKey c = k) data) [- 1, 0, 1, 2, 3])"
    using indexOf_range
    by (intro sort_key_buckets) (auto simp: displayKey_def)
  also have "\<dots> = filter (\<lambda>c. category c \<notin> set sortOrder) data
     @ concat (map (\<lambda>n. filter (\<lambda>c. category c = n) data) sortOrder)"
    by (simp add: displayKey_def indexOf_cases) (simp add: sortOrder_def)
  finally show ?thesis by (simp only: sortData_key)
qed

lemma sortData_canonical:
  assumes "set (map category data) \<subseteq> set sortOrder"
  shows "sortData data = concat (map (\<lambda>n. filter (\<lambda>c. category c = n) data) sortOrder)"
proof -
  have "filter (\<lambda>c. category c \<notin> set sortOrder) data = []"
    using assms by (auto simp: filter_empty_conv)
  then show ?thesis by (simp add: sortData_buckets)
qed


section \<open>The example request, evaluated\<close>

lemma demo_topic: "topicMissing (topic demoRequest) = Inr False"
  by (simp add: demoRequest_def topicMissing_def trim_def is_ws_def)

lemma demo_fields:
  "topic demoRequest = JStr ''tax''" "personalImpact demoRequest = JUndefined"
  "biasPreference demoRequest = JUndefined" "year demoRequest = JUndefined"
  "daysPerYear demoRequest = JNum 10"
  by (simp_all add: demoRequest_def)

lemma demo_pic: "personalImpactContent demoEnv (personalImpact demoRequest) = Inr None"
  by (simp add: demo_fields personalImpactContent_def)

lemma demo_generate: "generate demoEnv a b = Inr (Some [Some demoData])"
  by (simp add: demoEnv_def)

lemma demo_parsed: "parsedData (Some [Some demoData]) = Inr demoData"
  by (simp add: parsedData_def)

lemma demo_handler:
  "handler demoEnv sch demoRequest =
     (Some (okResponse demoEnv demoRequest demoData),
      LLMCall (categoriesText None) (userContent demoEnv demoRequest None)
        # searchCalls demoEnv (year demoRequest) (sortData demoData))"
  by (rule handler_ok [OF demo_topic demo_pic demo_generate demo_parsed])

lemma demo_sorted:
  "sortData demoData =
     [\<lparr>category = ''Statistical Impact'', weight = 8, facts = [''a'', ''x''],
       reasoning = ''r1''\<rparr>,
      \<lparr>category = ''Social Relevance'', weight = 6, facts = [''b''], reasoning = ''r2''\<rparr>]"
  by (simp add: sortData_def demoData_def indexOf_def sortOrder_def)

lemma demo_calls:
  "searchCalls demoEnv (year demoRequest) (sortData demoData) =
     [SearchCall ''a undefined'' 3, SearchCall ''x undefined'' 3, SearchCall ''b undefined'' 3]"
  by (simp add: demo_sorted searchCalls_def searchQuery_def demo_fields)

lemma demo_resolved:
  "resolved demoEnv (year demoRequest) (sortData demoData) =
     [\<lparr>category = ''Statistical Impact'', weight = 8,
       facts = [\<lparr>fact_text = ''a'',
                 sources = [\<lparr>title = Some ''t1'', link = Some ''http://u'',
                             snippet = Some ''s1'', citation = None\<rparr>,
                            \<lparr>title = Some ''t2'', link = None,
                             snippet = Some ''s2'', citation = None\<rparr>]\<rparr>,
                \<lparr>fact_text = ''x'', sources = []\<rparr>],
       reasoning = ''r1''\<rparr>,
      \<lparr>category = ''Social Relevance'', weight = 6,
       facts = [\<lparr>fact_text = ''b'',
                 sources = [\<lparr>title = Some ''t3'', link = Some ''http://u'',
                             snippet = Some ''s3'', citation = None\<rparr>]\<rparr>],
       reasoning = ''r2''\<rparr>]"
  by (simp add: demo_sorted resolved_def resolveFacts_def withFacts_def fetchRealSources_def
      searchQuery_def demo_fields demoEnv_def demoSearch_def)

lemma label_1: "label (Suc 0) = ''[1]''" and label_2: "label (Suc (Suc 0)) = ''[2]''"
  by code_simp+

lemma demo_cited:
  "citedWeights demoEnv (year demoRequest) demoData =
     [\<lparr>category = ''Statistical Impact'', weight = 8,
       facts = [\<lparr>fact_text = ''a'',
                 sources = [\<lparr>title = Some ''t1'', link = Some ''http://u'',
                             snippet = Some ''s1'', citation = Some ''[1]''\<rparr>,
                            \<lparr>title = Some ''t2'', link = None,
                             snippet = Some ''s2'', citation = None\<rparr>]\<rparr>,
                \<lparr>fact_text = ''x'', sources = []\<rparr>],
       reasoning = ''r1''\<rparr>,
      \<lparr>category = ''Social Relevance'', weight = 6,
       facts = [\<lparr>fact_text = ''b'',
                 sources = [\<lparr>title = Some ''t3'', link = Some ''http://u'',
                             snippet = Some ''s3'', citation = Some ''[2]''\<rparr>]\<rparr>],
       reasoning = ''r2''\<rparr>]"
  unfolding citedWeights_def demo_resolved
  by (simp add: flatSources_def has_link_def Let_def label_1 label_2)

section \<open>Flattening, labels and counting\<close>

lemma refillFacts_flat:
  "flatFacts (fst (refillFacts fs ss)) = take (length (flatFacts fs)) ss"
proof (induction fs arbitrary: ss)
  case Nil
  then show ?case by (simp add: flatFacts_def)
next
  case (Cons f fs)
  have "flatFacts (fst (refillFacts (f # fs) ss))
        = take (length (sources f)) ss @ flatFacts (fst (refillFacts fs (drop (length (sources f)) ss)))"
    by (simp add: flatFacts_def Let_def split_beta)
  also have "\<dots> = take (length (sources f)) ss
                    @ take (length (flatFacts fs)) (drop (length (sources f)) ss)"
    by (simp only: Cons.IH)
  also have "\<dots> = take (length (sources f) + length (flatFacts fs)) ss"
    by (simp only: take_add)
  finally show ?case
    by (simp add: flatFacts_def)
qed

lemma refill_flat: "flatSources (refill data ss) = take (length (flatSources data)) ss"
proof (induction data arbitrary: ss)
  case Nil
  then show ?case by (simp add: flatSources_def)
next
  case (Cons c cs)
  let ?k = "length (flatFacts (facts c))"
  have "flatSources (refill (c # cs) ss)
        = flatFacts (fst (refillFacts (facts c) ss)) @ flatSources (refill cs (drop ?k ss))"
    by (simp add: Let_def split_beta flatSources_Cons refillFacts_rest)
  also have "\<dots> = take ?k ss @ take (length (flatSources cs)) (drop ?k ss)"
    by (simp only: refillFacts_flat Cons.IH)
  also have "\<dots> = take (?k + length (flatSources cs)) ss"
    by (simp only: take_add)
  finally show ?case
    by (simp add: flatSources_Cons)
qed

lemma flat_citedWeights:
  "flatSources (citedWeights e yr data) =
     fst (citePass (flatSources (resolved e yr (sortData data))) 1 [])"
  by (simp add: citedWeights_def refill_flat citePass_length)

lemma fetchRealSources_citation: "s \<in> set (fetchRealSources e q) \<Longrightarrow> citation s = None"
  by (auto simp: fetchRealSources_def split: sum.splits option.splits)

lemma resolved_citation:
  "s \<in> set (flatSources (resolved e yr data)) \<Longrightarrow> citation s = None"
  by (auto simp: flatSources_def resolved_def resolveFacts_def withFacts_def
      dest: fetchRealSources_citation)

lemma decimal_value: "foldl (\<lambda>a c. 10 * a + (of_char c - 48)) 0 (decimal n) = n"
proof (induction n rule: decimal.induct)
  case (1 n)
  show ?case
  proof (cases "n < 10")
    case True
    then show ?thesis
      by (subst decimal.simps) simp
  next
    case False
    then have "foldl (\<lambda>a c. 10 * a + (of_char c - 48)) 0 (decimal n)
               = 10 * (n div 10) + (of_char (char_of (48 + n mod 10) :: char) - 48)"
      using "1.IH" by (subst decimal.simps) simp
    also have "\<dots> = n"
      by simp
    finally show ?thesis .
  qed
qed

lemma label_inj: "label a = label b \<Longrightarrow> a = b"
proof -
  assume "label a = label b"
  then have "decimal a = decimal b"
    by (simp add: label_def)
  then show "a = b"
    by (metis decimal_value)
qed

lemma filter_take_le: "length (filter P (take k xs)) \<le> length (filter P xs)"
proof -
  have "length (filter P xs) = length (filter P (take k xs)) + length (filter P (drop k xs))"
    by (metis append_take_drop_id filter_append length_append)
  then show ?thesis by simp
qed

lemma filter_take_strict:
  assumes "i < j" and "j \<le> length xs" and "P (xs ! i)"
  shows "length (filter P (take i xs)) < length (filter P (take j xs))"
proof -
  have i: "i < length xs" using assms by simp
  have "take (Suc i) (take j xs) = take (Suc i) xs"
    using assms(1) by (simp add: min_def)
  then have "length (filter P (take (Suc i) xs)) \<le> length (filter P (take j xs))"
    by (metis filter_take_le)
  moreover have "length (filter P (take (Suc i) xs)) = Suc (length (filter P (take i xs)))"
    using i assms(3) by (simp add: take_Suc_conv_app_nth)
  ultimately show ?thesis by simp
qed

lemma topicMissing_blank:
  assumes "t = JUndefined \<or> t = JNull \<or> (\<exists>s. t = JStr s \<and> list_all is_ws s)"
  shows "topicMissing t = Inr True"
proof -
  consider "t = JUndefined" | "t = JNull" | s where "t = JStr s" "list_all is_ws s"
    using assms by blast
  then show ?thesis
  proof cases
    case 1
    then show ?thesis by (simp add: topicMissing_def)
  next
    case 2
    then show ?thesis by (simp add: topicMissing_def)
  next
    case 3
    then have "trim s = []" by (simp add: trim_Nil_iff)
    with 3 show ?thesis by (simp add: topicMissing_def)
  qed
qed

section \<open>Validation of the request\<close>

text \<open>
  C8. A request whose topic is missing, null, empty or made of white space only is
  answered with status 400 and the body \<open>{error: "Topic input is required."}\<close>,
  and no external call is made: the list of calls is empty.
\<close>

theorem blank_topic_rejected:
  assumes "topic req = JUndefined \<or> topic req = JNull
           \<or> (\<exists>s. topic req = JStr s \<and> list_all is_ws s)"
  shows "handler e sch req =
           (Some \<lparr>status = 400, body = [(''error'', RStr ''Topic input is required.'')]\<rparr>, [])"
  using topicMissing_blank [OF assms]
  by (simp add: handler_def topicRequired_def)

theorem blank_topic_rejected_witness:
  "handler demoEnv demoSchedule (demoRequest\<lparr>topic := JStr [CHR 0x20, CHR 0x09, CHR 0x0A]\<rparr>) =
     (Some \<lparr>status = 400, body = [(''error'', RStr ''Topic input is required.'')]\<rparr>, [])"
  using blank_topic_rejected
    [of "demoRequest\<lparr>topic := JStr [CHR 0x20, CHR 0x09, CHR 0x0A]\<rparr>" demoEnv demoSchedule]
  by (simp add: is_ws_def)






section \<open>Lookups, the response and the citations\<close>

lemma fetchRealSources_error: "search e q 3 = Inl x \<Longrightarrow> fetchRealSources e q = []"
  by (simp add: fetchRealSources_def)

lemma uncited_fetch: "map uncited (fetchRealSources e q) = fetchRealSources e q"
  by (simp add: fetchRealSources_def uncited_def split: sum.splits option.splits)

lemma citedWeights_lookups:
  "map (\<lambda>c. map (\<lambda>f. (fact_text f, map uncited (sources f))) (facts c)) (citedWeights e yr data)
   = map (\<lambda>c. map (\<lambda>f. (f, fetchRealSources e (searchQuery e yr f))) (facts c)) (sortData data)"
proof -
  let ?r = "resolved e yr (sortData data)"
  have "map uncited (fst (citePass (flatSources ?r) 1 [])) = map uncited (flatSources ?r) @ []"
    by (simp add: citePass_preserves uncited_def)
  then have "map (\<lambda>c. map (\<lambda>f. (fact_text f, map uncited (sources f))) (facts c))
               (citedWeights e yr data)
             = map (\<lambda>c. map (\<lambda>f. (fact_text f, map uncited (sources f))) (facts c)) ?r"
    unfolding citedWeights_def by (rule refill_sources)
  also have "\<dots> = map (\<lambda>c. map (\<lambda>f. (f, fetchRealSources e (searchQuery e yr f))) (facts c))
                      (sortData data)"
    by (simp add: resolved_def resolveFacts_def withFacts_def uncited_fetch o_def)
  finally show ?thesis .
qed

lemma fetchRealSources_items:
  "map (\<lambda>s. (title s, link s, snippet s)) (fetchRealSources e q) =
     (case search e q 3 of
        Inl x \<Rightarrow> []
      | Inr None \<Rightarrow> []
      | Inr (Some items) \<Rightarrow> map (\<lambda>i. (item_title i, item_link i, item_snippet i)) items)"
  by (simp add: fetchRealSources_def o_def split: sum.splits option.splits)

lemma citedWeights_items:
  "map (\<lambda>c. map (\<lambda>f. (fact_text f, map (\<lambda>s. (title s, link s, snippet s)) (sources f)))
                (facts c)) (citedWeights e yr data)
   = map (\<lambda>c. map (\<lambda>f. (f, case search e (f @ '' '' @ toStr e yr) 3 of
                               Inl x \<Rightarrow> []
                             | Inr None \<Rightarrow> []
                             | Inr (Some items) \<Rightarrow>
                                 map (\<lambda>i. (item_title i, item_link i, item_snippet i)) items))
                (facts c)) (sortData data)"
proof -
  let ?t = "\<lambda>ss. map (\<lambda>s. (title s, link s, snippet s)) ss"
  have "map (map (\<lambda>(a, ss). (a, ?t ss)))
          (map (\<lambda>c. map (\<lambda>f. (fact_text f, map uncited (sources f))) (facts c))
             (citedWeights e yr data))
        = map (map (\<lambda>(a, ss). (a, ?t ss)))
          (map (\<lambda>c. map (\<lambda>f. (f, fetchRealSources e (searchQuery e yr f))) (facts c))
             (sortData data))"
    by (simp only: citedWeights_lookups)
  then show ?thesis
    by (simp add: o_def uncited_def fetchRealSources_items searchQuery_def)
qed


text \<open>
  C7. A lookup that fails does not raise: \<open>fetchRealSources\<close> returns the empty
  list. For a request that passes validation and a parsed payload, the response has
  status 200 whatever the search provider does, and every fact of the response carries
  its own text and, as its sources, the titles, links and snippets of the items that the
  search provider returned for the query of that fact: none when the lookup of the fact
  failed or returned no items. A failed lookup changes nothing for the other facts.
\<close>

theorem lookup_failure_isolated:
  assumes "topic req = JStr t" and "trim t \<noteq> []"
    and "personalImpactContent e (personalImpact req) = Inr pic"
    and "generate e (categoriesText pic) (userContent e req pic) = Inr c"
    and "parsedData c = Inr data"
  shows "(\<forall>q x. search e q 3 = Inl x \<longrightarrow> fetchRealSources e q = [])
    \<and> (\<exists>r. fst (handler e sch req) = Some r \<and> status r = 200
          \<and> map (\<lambda>c. map (\<lambda>f. (fact_text f,
                                  map (\<lambda>s. (title s, link s, snippet s)) (sources f)))
                         (facts c)) (responseWeights r)
            = map (\<lambda>c. map (\<lambda>f. (f, case search e (f @ '' '' @ toStr e (year req)) 3 of
                                        Inl x \<Rightarrow> []
                                      | Inr None \<Rightarrow> []
                                      | Inr (Some items) \<Rightarrow>
                                          map (\<lambda>i. (item_title i, item_link i, item_snippet i))
                                            items))
                         (facts c)) (sortData data)
          \<and> (\<forall>c\<in>set (responseWeights r). \<forall>f\<in>set (facts c).
                (\<exists>x. search e (fact_text f @ '' '' @ toStr e (year req)) 3 = Inl x)
                  \<longrightarrow> sources f = []))"
proof (intro conjI allI impI)
  fix q x assume "search e q 3 = Inl x"
  then show "fetchRealSources e q = []" by (rule fetchRealSources_error)
next
  let ?look = "\<lambda>f. case search e (f @ '' '' @ toStr e (year req)) 3 of
                                        Inl x \<Rightarrow> []
                                      | Inr None \<Rightarrow> []
                                      | Inr (Some items) \<Rightarrow>
                                          map (\<lambda>i. (item_title i, item_link i, item_snippet i))
                                            items"
  let ?F = "\<lambda>c. map (\<lambda>f. (fact_text f, map (\<lambda>s. (title s, link s, snippet s)) (sources f)))
                         (facts c)"
  let ?G = "\<lambda>c. map (\<lambda>f. (f, ?look f)) (facts c)"
  have ok: "topicMissing (topic req) = Inr False"
    using assms(1,2) by (simp add: topicMissing_string)
  have h: "fst (handler e sch req) = Some (okResponse e req data)"
    using handler_ok [OF ok assms(3,4,5)] by simp
  have s: "status (okResponse e req data) = 200"
    by (simp add: okResponse_def)
  have w: "responseWeights (okResponse e req data) = citedWeights e (year req) data"
    by (simp add: okResponse_def responseWeights_def)
  have eq: "map ?F (responseWeights (okResponse e req data)) = map ?G (sortData data)"
    unfolding w by (rule citedWeights_items)
  have failing: "sources f = []"
    if c: "c \<in> set (responseWeights (okResponse e req data))" and f: "f \<in> set (facts c)"
      and x: "\<exists>x. search e (fact_text f @ '' '' @ toStr e (year req)) 3 = Inl x" for c f
  proof -
    from c have "?F c \<in> set (map ?F (responseWeights (okResponse e req data)))" by simp
    then have "?F c \<in> set (map ?G (sortData data))" by (simp only: eq)
    then obtain d :: "string category" where d: "?F c = ?G d" by auto
    from f have "(fact_text f, map (\<lambda>s. (title s, link s, snippet s)) (sources f)) \<in> set (?F c)"
      by simp
    then have "(fact_text f, map (\<lambda>s. (title s, link s, snippet s)) (sources f)) \<in> set (?G d)"
      by (simp only: d)
    then have "map (\<lambda>s. (title s, link s, snippet s)) (sources f) = ?look (fact_text f)"
      by auto
    also from x have "\<dots> = []" by auto
    finally show ?thesis by simp
  qed
  show "\<exists>r. fst (handler e sch req) = Some r \<and> status r = 200
          \<and> map ?F (responseWeights r) = map ?G (sortData data)
          \<and> (\<forall>c\<in>set (responseWeights r). \<forall>f\<in>set (facts c).
                (\<exists>x. search e (fact_text f @ '' '' @ toStr e (year req)) 3 = Inl x)
                  \<longrightarrow> sources f = [])"
  proof (intro exI conjI ballI impI)
    show "fst (handler e sch req) = Some (okResponse e req data)" by (rule h)
    show "status (okResponse e req data) = 200" by (rule s)
    show "map ?F (responseWeights (okResponse e req data)) = map ?G (sortData data)" by (rule eq)
    show "sources f = []"
      if "c \<in> set (responseWeights (okResponse e req data))" and "f \<in> set (facts c)"
        and "\<exists>x. search e (fact_text f @ '' '' @ toStr e (year req)) 3 = Inl x" for c f
      using that by (rule failing)
  qed
qed

lemma demo_topic_fields: "topic demoRequest = JStr ''tax''" "trim ''tax'' \<noteq> []"
  by (simp_all add: demoRequest_def trim_def is_ws_def)

theorem lookup_failure_isolated_witness:
  "search demoEnv ''x undefined'' 3 = Inl (Exn ''timeout'')
   \<and> fetchRealSources demoEnv ''x undefined'' = []
   \<and> (\<exists>r. fst (handler demoEnv demoSchedule demoRequest) = Some r \<and> status r = 200
         \<and> map (\<lambda>c. map (\<lambda>f. (fact_text f,
                                 map (\<lambda>s. (title s, link s, snippet s)) (sources f)))
                        (facts c)) (responseWeights r)
           = [[(''a'', [(Some ''t1'', Some ''http://u'', Some ''s1''),
                        (Some ''t2'', None, Some ''s2'')]),
               (''x'', [])],
              [(''b'', [(Some ''t3'', Some ''http://u'', Some ''s3'')])]])"
proof -
  have failing: "search demoEnv ''x undefined'' 3 = Inl (Exn ''timeout'')"
    by (simp add: demoEnv_def demoSearch_def)
  note inst = lookup_failure_isolated [OF demo_topic_fields demo_pic demo_generate demo_parsed,
      of demoSchedule]
  have empty: "fetchRealSources demoEnv ''x undefined'' = []"
    using inst [THEN conjunct1, rule_format, OF failing] .
  have yr: "toStr demoEnv (year demoRequest) = ''undefined''"
    by (simp add: demoRequest_def)
  have s: "search demoEnv = demoSearch"
    by (simp add: demoEnv_def)
  from inst [THEN conjunct2] obtain r where
    r: "fst (handler demoEnv demoSchedule demoRequest) = Some r \<and> status r = 200
          \<and> map (\<lambda>c. map (\<lambda>f. (fact_text f,
                                  map (\<lambda>s. (title s, link s, snippet s)) (sources f)))
                         (facts c)) (responseWeights r)
            = map (\<lambda>c. map (\<lambda>f. (f, case search demoEnv
                                               (f @ '' '' @ toStr demoEnv (year demoRequest)) 3 of
                                        Inl x \<Rightarrow> []
                                      | Inr None \<Rightarrow> []
                                      | Inr (Some items) \<Rightarrow>
                                          map (\<lambda>i. (item_title i, item_link i, item_snippet i))
                                            items))
                         (facts c)) (sortData demoData)
          \<and> (\<forall>c\<in>set (responseWeights r). \<forall>f\<in>set (facts c).
                (\<exists>x. search demoEnv (fact_text f @ '' '' @ toStr demoEnv (year demoRequest)) 3
                       = Inl x)
                  \<longrightarrow> sources f = [])" ..
  note eq = r [THEN conjunct2, THEN conjunct2, THEN conjunct1]
  have content: "map (\<lambda>c. map (\<lambda>f. (fact_text f, map (\<lambda>s. (title s, link s, snippet s)) (sources f)))
                  (facts c)) (responseWeights r)
           = [[(''a'', [(Some ''t1'', Some ''http://u'', Some ''s1''),
                        (Some ''t2'', None, Some ''s2'')]),
               (''x'', [])],
              [(''b'', [(Some ''t3'', Some ''http://u'', Some ''s3'')])]]"
    unfolding eq demo_sorted yr s by (simp add: demoSearch_def)
  show ?thesis
  proof (intro conjI exI)
    show "search demoEnv ''x undefined'' 3 = Inl (Exn ''timeout'')" by (rule failing)
    show "fetchRealSources demoEnv ''x undefined'' = []" by (rule empty)
    show "fst (handler demoEnv demoSchedule demoRequest) = Some r" by (rule r [THEN conjunct1])
    show "status r = 200" by (rule r [THEN conjunct2, THEN conjunct1])
    show "map (\<lambda>c. map (\<lambda>f. (fact_text f, map (\<lambda>s. (title s, link s, snippet s)) (sources f)))
                  (facts c)) (responseWeights r)
           = [[(''a'', [(Some ''t1'', Some ''http://u'', Some ''s1''),
                        (Some ''t2'', None, Some ''s2'')]),
               (''x'', [])],
              [(''b'', [(Some ''t3'', Some ''http://u'', Some ''s3'')])]]" by (rule content)
  qed
qed

lemma okResponse_keys:
  "responseKeys (okResponse e req data) =
     [''weights'', ''totalHours'', ''totalHoursDescription'', ''analysisContext'']"
  by (simp add: responseKeys_def okResponse_def)

lemma searchQuery_absent_year: "searchQuery e JUndefined f = f @ '' undefined''"
  by (simp add: searchQuery_def)

lemma fetchRealSources_length:
  "length (fetchRealSources e q) =
     (case search e q 3 of Inl x \<Rightarrow> 0 | Inr None \<Rightarrow> 0 | Inr (Some items) \<Rightarrow> length items)"
  by (simp add: fetchRealSources_def split: sum.splits option.splits)

text \<open>
  C3 does not hold of the handler. On the example request the response has status 200
  and its keys are weights, totalHours, totalHoursDescription and analysisContext: there
  is no key sources. \<open>combinedSources\<close> is built from the citation map and not sent.
\<close>

theorem response_without_sources:
  "map_option (\<lambda>r. (status r, responseKeys r)) (fst (handler demoEnv demoSchedule demoRequest)) =
     Some (200, [''weights'', ''totalHours'', ''totalHoursDescription'', ''analysisContext''])"
  by (simp add: demo_handler responseKeys_def okResponse_def)

text \<open>
  C9 does not hold of the handler. The example request has no year, and the queries
  sent to the search provider are the facts followed by a space and the text
  \<open>undefined\<close>: the year is appended whether or not the request has one.
\<close>

theorem query_without_year:
  "year demoRequest = JUndefined
   \<and> snd (handler demoEnv demoSchedule demoRequest) =
     [LLMCall (categoriesText None) (userContent demoEnv demoRequest None),
      SearchCall ''a undefined'' 3, SearchCall ''x undefined'' 3, SearchCall ''b undefined'' 3]"
proof
  show "year demoRequest = JUndefined"
    by (simp add: demo_fields)
  show "snd (handler demoEnv demoSchedule demoRequest) =
     [LLMCall (categoriesText None) (userContent demoEnv demoRequest None),
      SearchCall ''a undefined'' 3, SearchCall ''x undefined'' 3, SearchCall ''b undefined'' 3]"
    by (simp add: demo_handler demo_calls)
qed

text \<open>
  C1, as the code has it. The citation pass numbers source objects, not links: every
  source with a non-empty link takes the next number and advances the counter by one,
  also when an earlier source has the same link. Two such sources at different positions
  of the traversal get different citations, and after the pass the counter has advanced
  by the number of sources with a link.
\<close>

theorem citation_per_source:
  assumes "i < j" and "j < length ss" and "has_link (ss ! i)" and "has_link (ss ! j)"
  shows "citation (fst (citePass ss n m) ! i)
           = Some (label (n + length (filter has_link (take i ss))))
       \<and> citation (fst (citePass ss n m) ! j)
           = Some (label (n + length (filter has_link (take j ss))))
       \<and> citation (fst (citePass ss n m) ! i) \<noteq> citation (fst (citePass ss n m) ! j)
       \<and> fst (snd (citePass ss n m)) = n + length (filter has_link ss)"
proof -
  have i: "i < length ss" using assms(1,2) by simp
  have ci: "citation (fst (citePass ss n m) ! i)
            = Some (label (n + length (filter has_link (take i ss))))"
    using assms(3) by (simp add: citePass_nth [OF i])
  have cj: "citation (fst (citePass ss n m) ! j)
            = Some (label (n + length (filter has_link (take j ss))))"
    using assms(4) by (simp add: citePass_nth [OF assms(2)])
  have "length (filter has_link (take i ss)) < length (filter has_link (take j ss))"
    using assms(1,2,3) by (intro filter_take_strict) simp_all
  then have "label (n + length (filter has_link (take i ss)))
             \<noteq> label (n + length (filter has_link (take j ss)))"
    using label_inj by fastforce
  with ci cj show ?thesis
    by (simp add: citePass_counter)
qed

theorem citation_per_source_witness:
  "link (demoSource\<lparr>title := Some ''other''\<rparr>) = link demoSource
   \<and> citation (fst (citePass [demoSource, demoSource\<lparr>title := Some ''other''\<rparr>] 1 []) ! 0)
       = Some ''[1]''
   \<and> citation (fst (citePass [demoSource, demoSource\<lparr>title := Some ''other''\<rparr>] 1 []) ! 1)
       = Some ''[2]''
   \<and> fst (snd (citePass [demoSource, demoSource\<lparr>title := Some ''other''\<rparr>] 1 [])) = 3"
  using citation_per_source
    [of 0 1 "[demoSource, demoSource\<lparr>title := Some ''other''\<rparr>]" 1 "[]"]
  by (simp add: demoSource_def has_link_def label_1 label_2)

text \<open>
  Within the example request the lookups of two facts return the same link, and the two
  sources get the citations [1] and [2].
\<close>

theorem same_link_two_ids_counterexample:
  "map_option responseCitations (fst (handler demoEnv demoSchedule demoRequest)) =
     Some [(Some ''http://u'', Some ''[1]''), (None, None), (Some ''http://u'', Some ''[2]'')]"
  by (simp add: demo_handler responseCitations_def responseWeights_def okResponse_def
      demo_cited flatSources_def)

section \<open>The numbering of the citations\<close>

lemma citePass_from_one:
  "snd (snd (citePass ss 1 [])) =
     zip [1..<1 + length (filter has_link ss)] (filter has_link (fst (citePass ss 1 [])))"
proof -
  have "\<forall>k\<in>fst ` set ([] :: (nat \<times> source) list). k < 1"
    by simp
  from citePass_map [OF this, of ss] show ?thesis
    by (simp only: append_Nil)
qed

lemma citePass_zip_length:
  "length [1..<1 + length (filter has_link ss)] = length (filter has_link (fst (citePass ss 1 [])))"
  by (simp add: citePass_has_link)

lemma citePass_keys:
  "map fst (snd (snd (citePass ss 1 []))) = [1..<1 + length (filter has_link ss)]"
  unfolding citePass_from_one using citePass_zip_length by (rule map_fst_zip)

lemma citePass_values:
  "map snd (snd (snd (citePass ss 1 []))) = filter has_link (fst (citePass ss 1 []))"
  unfolding citePass_from_one using citePass_zip_length by (rule map_snd_zip)

text \<open>
  C4. The response, the citation numbers included, is the same for any two schedules of
  the lookups. The numbers are written in one pass over the resolved sources in the
  order of the categories, of the facts and of the sources: a source with a link gets,
  as its citation, one more than the number of sources with a link before it, and a
  source without a link keeps no citation. The keys of the citation map are 1, 2, ...
  in the order of the traversal, so the numbers start at 1 and increase strictly in
  first-encounter order.
\<close>

theorem citation_numbering:
  "handler e sch req = handler e sch' req
   \<and> (topicMissing (topic req) = Inr False \<longrightarrow>
      personalImpactContent e (personalImpact req) = Inr pic \<longrightarrow>
      generate e (categoriesText pic) (userContent e req pic) = Inr c \<longrightarrow>
      parsedData c = Inr data \<longrightarrow>
      (\<exists>r. fst (handler e sch req) = Some r
         \<and> length (flatSources (responseWeights r))
             = length (flatSources (resolved e (year req) (sortData data)))
         \<and> (\<forall>i < length (flatSources (resolved e (year req) (sortData data))).
               citation (flatSources (resolved e (year req) (sortData data)) ! i) = None
               \<and> flatSources (responseWeights r) ! i =
                  (if has_link (flatSources (resolved e (year req) (sortData data)) ! i)
                   then (flatSources (resolved e (year req) (sortData data)) ! i)
                          \<lparr>citation := Some (label (citationId
                              (flatSources (resolved e (year req) (sortData data))) i))\<rparr>
                   else flatSources (resolved e (year req) (sortData data)) ! i))))
   \<and> (\<forall>ss. map fst (snd (snd (citePass ss 1 []))) = [1..<1 + length (filter has_link ss)]
          \<and> map snd (snd (snd (citePass ss 1 []))) = filter has_link (fst (citePass ss 1 [])))
   \<and> (\<forall>ss i j. i < j \<longrightarrow> j < length ss \<longrightarrow> has_link (ss ! i) \<longrightarrow>
          1 \<le> citationId ss i \<and> citationId ss i < citationId ss j)"
proof (intro conjI allI impI)
  show "handler e sch req = handler e sch' req"
    by (rule handler_independent)
next
  let ?ss = "flatSources (resolved e (year req) (sortData data))"
  assume ok: "topicMissing (topic req) = Inr False"
    and pic: "personalImpactContent e (personalImpact req) = Inr pic"
    and gen: "generate e (categoriesText pic) (userContent e req pic) = Inr c"
    and parsed: "parsedData c = Inr data"
  have r: "fst (handler e sch req) = Some (okResponse e req data)"
    using handler_ok [OF ok pic gen parsed] by simp
  have flat: "flatSources (responseWeights (okResponse e req data)) = fst (citePass ?ss 1 [])"
    by (simp add: okResponse_def responseWeights_def flat_citedWeights)
  have len: "length (flatSources (responseWeights (okResponse e req data))) = length ?ss"
    by (simp add: flat citePass_length)
  have each: "citation (?ss ! i) = None
      \<and> flatSources (responseWeights (okResponse e req data)) ! i =
          (if has_link (?ss ! i) then (?ss ! i)\<lparr>citation := Some (label (citationId ?ss i))\<rparr>
           else ?ss ! i)" if "i < length ?ss" for i
  proof
    show "citation (?ss ! i) = None"
      using that by (intro resolved_citation [of _ e "year req" "sortData data"]) simp
    show "flatSources (responseWeights (okResponse e req data)) ! i =
          (if has_link (?ss ! i) then (?ss ! i)\<lparr>citation := Some (label (citationId ?ss i))\<rparr>
           else ?ss ! i)"
      unfolding flat citationId_def by (rule citePass_nth [OF that])
  qed
  show "\<exists>r. fst (handler e sch req) = Some r
         \<and> length (flatSources (responseWeights r)) = length ?ss
         \<and> (\<forall>i < length ?ss.
               citation (?ss ! i) = None
               \<and> flatSources (responseWeights r) ! i =
                  (if has_link (?ss ! i)
                   then (?ss ! i)\<lparr>citation := Some (label (citationId ?ss i))\<rparr>
                   else ?ss ! i))"
    using r len each by blast
next
  fix ss
  show "map fst (snd (snd (citePass ss 1 []))) = [1..<1 + length (filter has_link ss)]"
    by (rule citePass_keys)
  show "map snd (snd (snd (citePass ss 1 []))) = filter has_link (fst (citePass ss 1 []))"
    by (rule citePass_values)
next
  fix ss :: "source list" and i j
  show "1 \<le> citationId ss i"
    by (simp add: citationId_def)
  assume "i < j" "j < length ss" "has_link (ss ! i)"
  then show "citationId ss i < citationId ss j"
    unfolding citationId_def by (simp add: filter_take_strict)
qed

theorem citation_numbering_witness:
  "handler demoEnv demoSchedule demoRequest = handler demoEnv demoSchedule' demoRequest
   \<and> (\<exists>r. fst (handler demoEnv demoSchedule demoRequest) = Some r
         \<and> map citation (flatSources (responseWeights r)) = [Some ''[1]'', None, Some ''[2]''])
   \<and> map fst (snd (snd (citePass
         (flatSources (resolved demoEnv (year demoRequest) (sortData demoData))) 1 []))) = [1, 2]"
proof -
  let ?ss = "flatSources (resolved demoEnv (year demoRequest) (sortData demoData))"
  note inst = citation_numbering [of demoEnv demoSchedule demoRequest demoSchedule' None
      "Some [Some demoData]" demoData]
  have linked: "length (filter has_link ?ss) = 2"
    by (simp add: demo_resolved flatSources_def has_link_def)
  from inst have same: "handler demoEnv demoSchedule demoRequest
      = handler demoEnv demoSchedule' demoRequest"
    by (rule conjunct1)
  from inst demo_topic demo_pic demo_generate demo_parsed
  obtain r where r: "fst (handler demoEnv demoSchedule demoRequest) = Some r"
    by blast
  then have "r = okResponse demoEnv demoRequest demoData"
    by (simp add: demo_handler)
  then have cits: "map citation (flatSources (responseWeights r)) = [Some ''[1]'', None, Some ''[2]'']"
    by (simp add: okResponse_def responseWeights_def demo_cited flatSources_def)
  from inst have "map fst (snd (snd (citePass ?ss 1 []))) = [1..<1 + length (filter has_link ?ss)]"
    by blast
  then have keys: "map fst (snd (snd (citePass ?ss 1 []))) = [1, 2]"
    unfolding linked by (simp add: upt_rec)
  show ?thesis
  proof (intro conjI exI)
    show "handler demoEnv demoSchedule demoRequest = handler demoEnv demoSchedule' demoRequest"
      by (rule same)
    show "fst (handler demoEnv demoSchedule demoRequest) = Some r" by (rule r)
    show "map citation (flatSources (responseWeights r)) = [Some ''[1]'', None, Some ''[2]'']"
      by (rule cits)
    show "map fst (snd (snd (citePass ?ss 1 []))) = [1, 2]" by (rule keys)
  qed
qed

section \<open>The order of the categories in the response\<close>

lemma citedWeights_categories:
  "map category (citedWeights e yr data) = map category (sortData data)"
  by (simp add: citedWeights_def refill_frame resolved_def withFacts_def o_def)

lemma refill_rest:
  "map (\<lambda>c. (category c, weight c, map fact_text (facts c), reasoning c)) (refill data ss)
   = map (\<lambda>c. (category c, weight c, map fact_text (facts c), reasoning c)) data"
  by (induction data arbitrary: ss) (simp_all add: Let_def split_beta refillFacts_text)

lemma citedWeights_rest:
  "map (\<lambda>c. (category c, weight c, map fact_text (facts c), reasoning c)) (citedWeights e yr data)
   = map (\<lambda>c. (category c, weight c, facts c, reasoning c)) (sortData data)"
  by (simp add: citedWeights_def refill_rest resolved_def resolveFacts_def withFacts_def o_def)


text \<open>
  C5, as the code has it. For a request that passes validation and a parsed payload, the
  response has status 200 and its weights are the returned categories, each with its
  name, weight, facts and reasoning, in this order: first the categories whose name is
  not in the display order, then those named Statistical Impact, then Social Relevance,
  then Policy Impact Potential, then Personal Relevance, the categories of one group in
  the order in which the provider returned them. When all names belong to the display
  order, the weights are therefore the returned sequence sorted stably into the display
  order; when the names are also distinct, they read exactly the display order
  restricted to the names present, and the result is the same for every order in which
  the provider returns the categories.
\<close>

theorem display_order:
  "(topic req = JStr t \<longrightarrow> trim t \<noteq> [] \<longrightarrow>
    personalImpactContent e (personalImpact req) = Inr pic \<longrightarrow>
    generate e (categoriesText pic) (userContent e req pic) = Inr payload \<longrightarrow>
    parsedData payload = Inr data \<longrightarrow>
      (\<exists>r. fst (handler e sch req) = Some r \<and> status r = 200
         \<and> map (\<lambda>c. (category c, weight c, map fact_text (facts c), reasoning c))
               (responseWeights r)
           = map (\<lambda>c. (category c, weight c, facts c, reasoning c))
               (filter (\<lambda>c. category c \<notin> set sortOrder) data
                @ concat (map (\<lambda>n. filter (\<lambda>c. category c = n) data) sortOrder))
         \<and> (set (map category data) \<subseteq> set sortOrder \<longrightarrow>
               map (\<lambda>c. (category c, weight c, map fact_text (facts c), reasoning c))
                 (responseWeights r)
               = map (\<lambda>c. (category c, weight c, facts c, reasoning c))
                   (concat (map (\<lambda>n. filter (\<lambda>c. category c = n) data) sortOrder))
               \<and> sorted (map (indexOf sortOrder) (map category (responseWeights r)))
               \<and> (distinct (map category data) \<longrightarrow>
                     map category (responseWeights r)
                     = filter (\<lambda>n. n \<in> set (map category data)) sortOrder))))
   \<and> (set (map category data) \<subseteq> set sortOrder \<longrightarrow>
        mset (sortData data) = mset data
        \<and> map category (citedWeights e yr data) = map category (sortData data)
        \<and> sorted (map (indexOf sortOrder) (map category (sortData data)))
        \<and> sortData data = concat (map (\<lambda>n. filter (\<lambda>c. category c = n) data) sortOrder)
        \<and> (distinct (map category data) \<longrightarrow>
              map category (sortData data) = filter (\<lambda>n. n \<in> set (map category data)) sortOrder
              \<and> (\<forall>data'. mset data' = mset data \<longrightarrow> sortData data' = sortData data)))"
proof (intro conjI impI)
  assume hyps: "topic req = JStr t" "trim t \<noteq> []"
    "personalImpactContent e (personalImpact req) = Inr pic"
    "generate e (categoriesText pic) (userContent e req pic) = Inr payload"
    "parsedData payload = Inr data"
  let ?r = "okResponse e req data"
  have ok: "topicMissing (topic req) = Inr False"
    using hyps(1,2) by (simp add: topicMissing_string)
  have h: "fst (handler e sch req) = Some ?r"
    using handler_ok [OF ok hyps(3,4,5)] by simp
  have s: "status ?r = 200"
    by (simp add: okResponse_def)
  have w: "responseWeights ?r = citedWeights e (year req) data"
    by (simp add: okResponse_def responseWeights_def)
  have rest: "map (\<lambda>c. (category c, weight c, map fact_text (facts c), reasoning c))
                (responseWeights ?r)
              = map (\<lambda>c. (category c, weight c, facts c, reasoning c)) (sortData data)"
    unfolding w by (rule citedWeights_rest)
  have names: "map category (responseWeights ?r) = map category (sortData data)"
    unfolding w by (rule citedWeights_categories)
  show "\<exists>r. fst (handler e sch req) = Some r \<and> status r = 200
         \<and> map (\<lambda>c. (category c, weight c, map fact_text (facts c), reasoning c))
               (responseWeights r)
           = map (\<lambda>c. (category c, weight c, facts c, reasoning c))
               (filter (\<lambda>c. category c \<notin> set sortOrder) data
                @ concat (map (\<lambda>n. filter (\<lambda>c. category c = n) data) sortOrder))
         \<and> (set (map category data) \<subseteq> set sortOrder \<longrightarrow>
               map (\<lambda>c. (category c, weight c, map fact_text (facts c), reasoning c))
                 (responseWeights r)
               = map (\<lambda>c. (category c, weight c, facts c, reasoning c))
                   (concat (map (\<lambda>n. filter (\<lambda>c. category c = n) data) sortOrder))
               \<and> sorted (map (indexOf sortOrder) (map category (responseWeights r)))
               \<and> (distinct (map category data) \<longrightarrow>
                     map category (responseWeights r)
                     = filter (\<lambda>n. n \<in> set (map category data)) sortOrder))"
  proof (intro exI conjI impI)
    show "fst (handler e sch req) = Some ?r" by (rule h)
    show "status ?r = 200" by (rule s)
    show "map (\<lambda>c. (category c, weight c, map fact_text (facts c), reasoning c))
               (responseWeights ?r)
           = map (\<lambda>c. (category c, weight c, facts c, reasoning c))
               (filter (\<lambda>c. category c \<notin> set sortOrder) data
                @ concat (map (\<lambda>n. filter (\<lambda>c. category c = n) data) sortOrder))"
      using rest by (simp only: sortData_buckets)
  next
    assume sub: "set (map category data) \<subseteq> set sortOrder"
    show "map (\<lambda>c. (category c, weight c, map fact_text (facts c), reasoning c))
                 (responseWeights ?r)
               = map (\<lambda>c. (category c, weight c, facts c, reasoning c))
                   (concat (map (\<lambda>n. filter (\<lambda>c. category c = n) data) sortOrder))"
      using rest by (simp only: sortData_canonical [OF sub])
    show "sorted (map (indexOf sortOrder) (map category (responseWeights ?r)))"
      unfolding names using sorted_sortData [of data]
      by (simp add: displayKey_def [abs_def] o_def)
    assume dist: "distinct (map category data)"
    show "map category (responseWeights ?r)
            = filter (\<lambda>n. n \<in> set (map category data)) sortOrder"
      unfolding names using sub dist by (rule canonical_names)
  qed
next
  assume sub: "set (map category data) \<subseteq> set sortOrder"
  show "mset (sortData data) = mset data"
    by (rule mset_sortData)
  show "map category (citedWeights e yr data) = map category (sortData data)"
    by (rule citedWeights_categories)
  show "sorted (map (indexOf sortOrder) (map category (sortData data)))"
    using sorted_sortData [of data] by (simp add: displayKey_def [abs_def] o_def)
  show "sortData data = concat (map (\<lambda>n. filter (\<lambda>c. category c = n) data) sortOrder)"
    using sub by (rule sortData_canonical)
  assume dist: "distinct (map category data)"
  show "map category (sortData data) = filter (\<lambda>n. n \<in> set (map category data)) sortOrder"
    using sub dist by (rule canonical_names)
  show "\<forall>data'. mset data' = mset data \<longrightarrow> sortData data' = sortData data"
  proof (intro allI impI)
    fix data' :: "string category list"
    assume "mset data' = mset data"
    with sub dist show "sortData data' = sortData data"
      by (rule sortData_order_independent)
  qed
qed

theorem display_order_witness:
  "(\<exists>r. fst (handler demoEnv demoSchedule demoRequest) = Some r \<and> status r = 200
      \<and> map (\<lambda>c. (category c, weight c, map fact_text (facts c), reasoning c))
            (responseWeights r)
        = [(''Statistical Impact'', 8, [''a'', ''x''], ''r1''),
           (''Social Relevance'', 6, [''b''], ''r2'')])
   \<and> sortData (rev demoData) = sortData demoData
   \<and> sortData [demoCategory ''Social Relevance'' 6, demoCategory ''Statistical Impact'' 8,
                demoCategory ''Social Relevance'' 3]
     = [demoCategory ''Statistical Impact'' 8, demoCategory ''Social Relevance'' 6,
        demoCategory ''Social Relevance'' 3]"
proof -
  have sub: "set (map category demoData) \<subseteq> set sortOrder"
    by (simp add: demoData_def sortOrder_def)
  have dist: "distinct (map category demoData)"
    by (simp add: demoData_def)
  note inst = display_order [where data = demoData and e = demoEnv and req = demoRequest
      and t = "''tax''" and pic = None and payload = "Some [Some demoData]"
      and sch = demoSchedule and yr = JUndefined]
  note resp = inst [THEN conjunct1, rule_format, OF demo_topic_fields demo_pic demo_generate
      demo_parsed]
  note pure = inst [THEN conjunct2, rule_format, OF sub]
  from resp obtain r where r: "fst (handler demoEnv demoSchedule demoRequest) = Some r"
    "status r = 200"
    and canon: "set (map category demoData) \<subseteq> set sortOrder \<longrightarrow>
               map (\<lambda>c. (category c, weight c, map fact_text (facts c), reasoning c))
                 (responseWeights r)
               = map (\<lambda>c. (category c, weight c, facts c, reasoning c))
                   (concat (map (\<lambda>n. filter (\<lambda>c. category c = n) demoData) sortOrder))
               \<and> sorted (map (indexOf sortOrder) (map category (responseWeights r)))
               \<and> (distinct (map category demoData) \<longrightarrow>
                     map category (responseWeights r)
                     = filter (\<lambda>n. n \<in> set (map category demoData)) sortOrder)"
    by (elim exE conjE)
  have content: "map (\<lambda>c. (category c, weight c, map fact_text (facts c), reasoning c))
            (responseWeights r)
        = [(''Statistical Impact'', 8, [''a'', ''x''], ''r1''),
           (''Social Relevance'', 6, [''b''], ''r2'')]"
    unfolding canon [THEN mp, OF sub, THEN conjunct1]
    by (simp add: demoData_def sortOrder_def)
  have any: "\<forall>data'. mset data' = mset demoData \<longrightarrow> sortData data' = sortData demoData"
    using pure [THEN conjunct2, THEN conjunct2, THEN conjunct2, THEN conjunct2, THEN mp, OF dist]
    by (rule conjunct2)
  have rev: "sortData (rev demoData) = sortData demoData"
    using any [rule_format, of "rev demoData"] by simp
  let ?dup = "[demoCategory ''Social Relevance'' 6, demoCategory ''Statistical Impact'' 8,
                demoCategory ''Social Relevance'' 3]"
  have sub': "set (map category ?dup) \<subseteq> set sortOrder"
    by (simp add: demoCategory_def sortOrder_def)
  have "sortData ?dup = concat (map (\<lambda>n. filter (\<lambda>c. category c = n) ?dup) sortOrder)"
    using display_order [where data = ?dup and e = demoEnv and yr = JUndefined,
        THEN conjunct2, rule_format, OF sub']
    by (elim conjE)
  then have dup: "sortData ?dup = [demoCategory ''Statistical Impact'' 8,
        demoCategory ''Social Relevance'' 6, demoCategory ''Social Relevance'' 3]"
    by (simp add: demoCategory_def sortOrder_def)
  show ?thesis
  proof (intro conjI exI)
    show "fst (handler demoEnv demoSchedule demoRequest) = Some r" by (rule r(1))
    show "status r = 200" by (rule r(2))
    show "map (\<lambda>c. (category c, weight c, map fact_text (facts c), reasoning c))
            (responseWeights r)
        = [(''Statistical Impact'', 8, [''a'', ''x''], ''r1''),
           (''Social Relevance'', 6, [''b''], ''r2'')]" by (rule content)
    show "sortData (rev demoData) = sortData demoData" by (rule rev)
    show "sortData ?dup = [demoCategory ''Statistical Impact'' 8,
        demoCategory ''Social Relevance'' 6, demoCategory ''Social Relevance'' 3]" by (rule dup)
  qed
qed

text \<open>
  A category whose name is not in the display order is placed before Statistical Impact.
\<close>

theorem unknown_category_first_counterexample:
  "map category (sortData [demoCategory ''Statistical Impact'' 8, demoCategory ''Trade'' 5])
   = [''Trade'', ''Statistical Impact'']"
  by (simp add: sortData_def demoCategory_def indexOf_def sortOrder_def)

end
